theory Spec2Isabelle
  imports Main
begin

section \<open>Thrown values, observable actions and the state of a process\<close>

text \<open>
  A JavaScript \<^verbatim>\<open>throw\<close> may carry any value. The code only distinguishes
  \<^verbatim>\<open>Error\<close> objects (read through their \<^verbatim>\<open>message\<close>) from everything else
  (read through \<^verbatim>\<open>String(value)\<close>), so a thrown value is one of the two, with
  the text the code can see.
\<close>

datatype thrown = Error string | NonError string

text \<open>\<^verbatim>\<open>error instanceof Error ? error : new Error(String(error))\<close>\<close>

fun toError :: "thrown \<Rightarrow> thrown" where
  "toError (Error m) = Error m"
| "toError (NonError s) = Error s"

text \<open>
  What a process does to the outside, in the order it does it. \<open>Wait ms\<close> is a call
  of \<^verbatim>\<open>delay(ms)\<close>; \<open>Invoke\<close> is one call of an operation given by a script
  of outcomes; the remaining actions are the steps of the event detector and the two
  queries of the followings statistics.
\<close>

datatype action =
    Wait nat
  | Invoke
  | Fetch string
  | SeenCheck string
  | StoreSelect string
  | CacheGet string
  | Classify string
  | StoreUpsert string
  | WatchlistSelect string
  | HistorySelect string nat

section \<open>The TTL cache (src/utils/cache.ts over the node-cache package)\<close>

text \<open>
  Modelled from the spec: the class \<^verbatim>\<open>NodeCache\<close> of the npm package node-cache, a
  dependency whose code is not part of the repository. The spec's CacheEntry has a key,
  a value and an absolute expiry time; a read never returns an entry whose expiry time
  has passed, such an entry is treated as absent and reclaimed on the spot; a background
  sweep purges expired entries; the statistics count hits and misses. Times are
  milliseconds since the epoch, a TTL is a number of seconds. As in the package, an
  expiry time of 0 stands for "never expires" and is what a TTL of 0 gives.
  The value \<^verbatim>\<open>undefined\<close> is the library's and the wrapper's marker for "absent": cached
  values are the defined values, the type \<open>'v\<close>.
\<close>

record 'v CacheEntry =
  expiresAt :: nat
  entryValue :: 'v

record 'v NodeCache =
  entries :: "string \<rightharpoonup> 'v CacheEntry"
  hits :: nat
  misses :: nat

definition emptyCache :: "'v NodeCache" where
  "emptyCache = \<lparr>entries = Map.empty, hits = 0, misses = 0\<rparr>"

definition expired :: "nat \<Rightarrow> 'v CacheEntry \<Rightarrow> bool" where
  "expired now e = (expiresAt e \<noteq> 0 \<and> expiresAt e < now)"

definition cache_get :: "nat \<Rightarrow> string \<Rightarrow> 'v NodeCache \<Rightarrow> 'v option \<times> 'v NodeCache" where
  "cache_get now k c =
     (case entries c k of
        None \<Rightarrow> (None, c\<lparr>misses := misses c + 1\<rparr>)
      | Some e \<Rightarrow>
          if expired now e
          then (None, c\<lparr>entries := (entries c)(k := None), misses := misses c + 1\<rparr>)
          else (Some (entryValue e), c\<lparr>hits := hits c + 1\<rparr>))"

definition cache_set :: "nat \<Rightarrow> string \<Rightarrow> 'v \<Rightarrow> nat \<Rightarrow> 'v NodeCache \<Rightarrow> 'v NodeCache" where
  "cache_set now k x ttl c =
     c\<lparr>entries := (entries c)(k \<mapsto>
          \<lparr>expiresAt = (if ttl = 0 then 0 else now + ttl * 1000), entryValue = x\<rparr>)\<rparr>"

definition cache_sweep :: "nat \<Rightarrow> 'v NodeCache \<Rightarrow> 'v NodeCache" where
  "cache_sweep now c =
     c\<lparr>entries := (\<lambda>k. case entries c k of
                            None \<Rightarrow> None
                          | Some e \<Rightarrow> if expired now e then None else Some e)\<rparr>"

text \<open>
  The state of one process: the wall clock (ms), the number of calls made so far to
  outside services, the actions so far in order, the module's singleton cache, and the
  database behind the Supabase client.
\<close>

record ('v, 'd) state =
  clock :: nat
  calls :: nat
  trace :: "action list"
  cache :: "'v NodeCache"
  db :: 'd

text \<open>An effectful computation that may throw: the result and the state it leaves.\<close>

type_synonym ('a, 'v, 'd) comp = "('v, 'd) state \<Rightarrow> (thrown + 'a) \<times> ('v, 'd) state"

text \<open>
  A call to an outside service. Its \<open>n\<close>-th use overall takes the time and gives the
  outcome that the environment's script \<open>reply\<close> holds at \<open>n\<close>; the call is recorded
  as action \<open>a\<close>.
\<close>

definition ext :: "action \<Rightarrow> (nat \<Rightarrow> nat \<times> (thrown + 'a)) \<Rightarrow> ('a, 'v, 'd) comp" where
  "ext a reply s =
     (snd (reply (calls s)),
      s\<lparr>clock := clock s + fst (reply (calls s)),
        calls := Suc (calls s),
        trace := trace s @ [a]\<rparr>)"

subsection \<open>src/utils/cache.ts\<close>

definition DEFAULT_TTL :: nat where
  "DEFAULT_TTL = 60 * 115"

text \<open>
  \<^verbatim>\<open>getCached\<close> reads the clock for the library's expiry check; the lookup is
  recorded as an action, so that the order of lookups and outside calls can be read
  from the trace. \<^verbatim>\<open>setCached\<close> returns \<^verbatim>\<open>true\<close>, which no caller reads.
\<close>

definition getCached :: "string \<Rightarrow> ('v, 'd) state \<Rightarrow> 'v option \<times> ('v, 'd) state" where
  "getCached key s =
     (let (r, c) = cache_get (clock s) key (cache s)
      in (r, s\<lparr>trace := trace s @ [CacheGet key], cache := c\<rparr>))"

definition setCached :: "string \<Rightarrow> 'v \<Rightarrow> nat \<Rightarrow> ('v, 'd) state \<Rightarrow> ('v, 'd) state" where
  "setCached key x ttl s = s\<lparr>cache := cache_set (clock s) key x ttl (cache s)\<rparr>"

text \<open>
  \<^verbatim>\<open>cachedValue !== undefined\<close> is the test for a hit; an error thrown by
  \<^verbatim>\<open>await fn()\<close> leaves the function before \<^verbatim>\<open>setCached\<close>.
\<close>

definition getCachedOrCompute ::
  "string \<Rightarrow> ('v, 'v, 'd) comp \<Rightarrow> nat \<Rightarrow> ('v, 'v, 'd) comp" where
  "getCachedOrCompute key fn ttl s =
     (case getCached key s of
        (Some cachedValue, s1) \<Rightarrow> (Inr cachedValue, s1)
      | (None, s1) \<Rightarrow>
          (case fn s1 of
             (Inl e, s2) \<Rightarrow> (Inl e, s2)
           | (Inr computedValue, s2) \<Rightarrow> (Inr computedValue, setCached key computedValue ttl s2)))"

section \<open>The retry executor (src/event-detector.ts)\<close>

definition MAX_RETRIES :: nat where
  "MAX_RETRIES = 3"

definition RETRY_DELAY :: nat where
  "RETRY_DELAY = 5000"

text \<open>\<^verbatim>\<open>delay(ms)\<close> resolves after \<open>ms\<close> milliseconds: the clock moves on by \<open>ms\<close>.\<close>

definition delay :: "nat \<Rightarrow> ('v, 'd) state \<Rightarrow> ('v, 'd) state" where
  "delay ms s = s\<lparr>clock := clock s + ms, trace := trace s @ [Wait ms]\<rparr>"

text \<open>
  The \<^verbatim>\<open>for\<close> loop of \<^verbatim>\<open>withRetry\<close> from \<open>attempt\<close> on, with the current
  \<^verbatim>\<open>lastError\<close>; after the loop, \<^verbatim>\<open>throw lastError || new Error('All retries failed')\<close>.
\<close>

function withRetry_from ::
  "('a, 'v, 'd) comp \<Rightarrow> nat \<Rightarrow> nat \<Rightarrow> nat \<Rightarrow> thrown option \<Rightarrow> ('a, 'v, 'd) comp" where
  "withRetry_from fn retries delayMs attempt lastError s =
     (if attempt \<le> retries then
        (case fn s of
           (Inr x, s1) \<Rightarrow> (Inr x, s1)
         | (Inl e, s1) \<Rightarrow>
             withRetry_from fn retries delayMs (Suc attempt) (Some (toError e))
               (if attempt < retries then delay (delayMs * 2 ^ (attempt - 1)) s1 else s1))
      else
        (Inl (case lastError of Some e \<Rightarrow> e | None \<Rightarrow> Error ''All retries failed''), s))"
  by pat_completeness auto
termination
  by (relation "measure (\<lambda>(fn, retries, delayMs, attempt, lastError, s). Suc retries - attempt)") auto

definition withRetry :: "('a, 'v, 'd) comp \<Rightarrow> nat \<Rightarrow> nat \<Rightarrow> ('a, 'v, 'd) comp" where
  "withRetry fn retries delayMs = withRetry_from fn retries delayMs 1 None"

text \<open>
  The actions of \<open>j\<close> failed attempts that are each followed by a wait, the first of
  them being attempt number \<open>attempt\<close>, on an operation recorded as \<open>a\<close>.
\<close>

definition retry_waits :: "action \<Rightarrow> nat \<Rightarrow> nat \<Rightarrow> nat \<Rightarrow> action list" where
  "retry_waits a d attempt j = concat (map (\<lambda>i. [a, Wait (d * 2 ^ (attempt + i - 1))]) [0..<j])"

section \<open>The event detector (src/event-detector.ts)\<close>

definition MIN_CONFIDENCE_THRESHOLD :: int where
  "MIN_CONFIDENCE_THRESHOLD = 90"

definition OPENAI_ANALYSIS_CACHE_TTL :: nat where
  "OPENAI_ANALYSIS_CACHE_TTL = 60 * 60 * 24 * 7"

text \<open>
  \<^verbatim>\<open>InstagramPost\<close> (src/types/instagram-scraper.d.ts), at the fields the detector reads;
  they carry the prefix \<open>ig_\<close> (\<open>id\<close> is HOL's identity, \<open>caption\<close> and
  \<open>image_url\<close> are fields of \<open>EventPost\<close> too). An optional field that is
  \<^verbatim>\<open>undefined\<close> is \<open>None\<close>.
\<close>

record InstagramPost =
  ig_id :: string
  ig_shortcode :: "string option"
  ig_display_url :: "string option"
  ig_image_url :: "string option"
  ig_url :: "string option"
  ig_caption :: "string option"
  ig_timestamp :: "int option"

record ScraperResult =
  success :: bool
  posts :: "InstagramPost list option"

text \<open>
  \<^verbatim>\<open>completion.data.choices\<close>: absent, or the list of the choices, each with its
  \<^verbatim>\<open>message?.content\<close>.
\<close>

record ChatCompletion =
  choices :: "string option list option"

text \<open>
  The object \<^verbatim>\<open>analyzePostWithOpenAI\<close> returns, read at the four fields of its declared
  type. \<open>eventDetails\<close> is an opaque payload, kept as its JSON text; a score is a whole
  number here.
\<close>

record analysis =
  isEvent :: bool
  eventType :: "string option"
  eventDetails :: "string option"
  confidenceScore :: int

text \<open>
  \<^verbatim>\<open>EventPost\<close>; \<open>post_date\<close> is kept as the time value of the date (milliseconds
  since the epoch) in place of its ISO text.
\<close>

record EventPost =
  account :: string
  post_id :: string
  post_url :: string
  post_date :: int
  caption :: "string option"
  image_url :: "string option"
  is_event :: bool
  event_type :: "string option"
  event_details :: "string option"
  confidence_score :: int

text \<open>
  The collaborators of one process. Every request to a collaborator is an outside call
  (\<open>ext\<close>): the script gives, for the arguments of the request and the number of
  outside calls made before it, how long the request takes and how it ends.
  \<open>jitter\<close> is \<^verbatim>\<open>Math.random() * 3000\<close>; \<open>supabase_up\<close> tells whether a database request
  goes through; \<open>JSON_parse\<close> is \<^verbatim>\<open>JSON.parse\<close> followed by the reading of the object as
  an \<open>analysis\<close>, \<open>None\<close> where it throws.
\<close>

record env =
  jitter :: "nat \<Rightarrow> nat"
  scraper_getPosts :: "string \<Rightarrow> nat \<Rightarrow> nat \<Rightarrow> nat \<times> (thrown + ScraperResult)"
  openai_createChatCompletion :: "string \<Rightarrow> string \<Rightarrow> nat \<Rightarrow> nat \<times> (thrown + ChatCompletion)"
  supabase_up :: "nat \<Rightarrow> nat \<times> bool"
  JSON_parse :: "string \<Rightarrow> analysis option"

type_synonym detector = "(analysis, EventPost list) state"

subsection \<open>The persistent store\<close>

text \<open>
  Modelled from the spec: the table \<^verbatim>\<open>instagram_events\<close> behind the Supabase client (a
  service, not code of the repository). The spec's store has \<open>eventExists(itemId)\<close> and
  \<open>upsertEvent\<close>, an upsert keyed by \<open>itemId\<close>: "a second upsert for the same id
  overwrites, it does not duplicate". The table is the list of its rows;
  \<^verbatim>\<open>.single()\<close> yields a row only when exactly one row matches.
\<close>

definition upsert_row :: "EventPost \<Rightarrow> EventPost list \<Rightarrow> EventPost list" where
  "upsert_row e rows =
     (if \<exists>r \<in> set rows. post_id r = post_id e
      then map (\<lambda>r. if post_id r = post_id e then e else r) rows
      else rows @ [e])"

definition select_single :: "string \<Rightarrow> EventPost list \<Rightarrow> EventPost option" where
  "select_single pid rows =
     (case filter (\<lambda>r. post_id r = pid) rows of [r] \<Rightarrow> Some r | _ \<Rightarrow> None)"

text \<open>
  Lines 338 to 342: \<^verbatim>\<open>supabase.from('instagram_events').select('id').eq('post_id', post.id).single()\<close>;
  the result is \<^verbatim>\<open>data\<close>, \<^verbatim>\<open>null\<close> on any error.
\<close>

definition select_existing :: "env \<Rightarrow> string \<Rightarrow> detector \<Rightarrow> EventPost option \<times> detector" where
  "select_existing env pid s =
     (if snd (supabase_up env (calls s)) then select_single pid (db s) else None,
      s\<lparr>clock := clock s + fst (supabase_up env (calls s)),
        calls := Suc (calls s),
        trace := trace s @ [StoreSelect pid]\<rparr>)"

definition storeEventInSupabase :: "env \<Rightarrow> EventPost \<Rightarrow> detector \<Rightarrow> bool \<times> detector" where
  "storeEventInSupabase env eventPost s =
     (snd (supabase_up env (calls s)),
      s\<lparr>clock := clock s + fst (supabase_up env (calls s)),
        calls := Suc (calls s),
        trace := trace s @ [StoreUpsert (post_id eventPost)],
        db := (if snd (supabase_up env (calls s)) then upsert_row eventPost (db s) else db s)\<rparr>)"

subsection \<open>analyzePostWithOpenAI\<close>

text \<open>\<^verbatim>\<open>a || b\<close> on optional strings: the empty string and \<^verbatim>\<open>undefined\<close> are falsy.\<close>

definition truthy :: "string option \<Rightarrow> bool" where
  "truthy x = (case x of None \<Rightarrow> False | Some t \<Rightarrow> t \<noteq> [])"

definition orElse :: "string option \<Rightarrow> string option \<Rightarrow> string option" where
  "orElse x y = (if truthy x then x else y)"

definition orText :: "string option \<Rightarrow> string \<Rightarrow> string" where
  "orText x d = (case x of None \<Rightarrow> d | Some t \<Rightarrow> if t = [] then d else t)"

text \<open>\<^verbatim>\<open>message.includes(sub)\<close>\<close>

fun str_includes :: "string \<Rightarrow> string \<Rightarrow> bool" where
  "str_includes [] sub = (sub = [])"
| "str_includes (c # cs) sub = (take (length sub) (c # cs) = sub \<or> str_includes cs sub)"

text \<open>
  \<^verbatim>\<open>responseText.match(/\{[\s\S]*\}/)\<close>: from the first opening brace to the last closing
  brace after it, if there is one.
\<close>

definition jsonMatch :: "string \<Rightarrow> string option" where
  "jsonMatch responseText =
     (case dropWhile (\<lambda>c. c \<noteq> CHR ''{'') responseText of
        [] \<Rightarrow> None
      | b # rest \<Rightarrow>
          if CHR ''}'' \<in> set rest
          then Some (b # rev (dropWhile (\<lambda>c. c \<noteq> CHR ''}'') (rev rest)))
          else None)"

definition fallback :: analysis where
  "fallback = \<lparr>isEvent = False, eventType = None, eventDetails = None, confidenceScore = 0\<rparr>"

text \<open>Lines 164 to 189: what is returned for a completion that was received.\<close>

definition readCompletion :: "env \<Rightarrow> ChatCompletion \<Rightarrow> analysis" where
  "readCompletion env completion =
     (case choices completion of
        None \<Rightarrow> fallback
      | Some [] \<Rightarrow> fallback
      | Some (choice # _) \<Rightarrow>
          (case jsonMatch (orText choice []) of
             None \<Rightarrow> fallback
           | Some m \<Rightarrow> (case JSON_parse env m of None \<Rightarrow> fallback | Some parsedResponse \<Rightarrow> parsedResponse)))"

text \<open>
  The request of lines 152 to 162. The prompt is a fixed text around the caption and the
  image URL, so the reply is scripted by those two.
\<close>

definition chatReply :: "env \<Rightarrow> InstagramPost \<Rightarrow> nat \<Rightarrow> nat \<times> (thrown + ChatCompletion)" where
  "chatReply env post =
     openai_createChatCompletion env
       (orText (ig_caption post) ''No caption'')
       (orText (orElse (ig_display_url post) (ig_image_url post)) [])"

definition createChatCompletion :: "env \<Rightarrow> InstagramPost \<Rightarrow> (ChatCompletion, analysis, EventPost list) comp" where
  "createChatCompletion env post = ext (Classify (ig_id post)) (chatReply env post)"

text \<open>
  The producer passed to \<^verbatim>\<open>getCachedOrCompute\<close> (lines 118 to 206). An error that leaves
  \<^verbatim>\<open>withRetry\<close> is rethrown by the inner \<^verbatim>\<open>catch\<close>, after a wait of 15 s when its
  message mentions a rate limit, and the outer \<^verbatim>\<open>catch\<close> turns it into the fallback.
\<close>

definition analyzeProducer :: "env \<Rightarrow> InstagramPost \<Rightarrow> (analysis, analysis, EventPost list) comp" where
  "analyzeProducer env post s =
     (case withRetry (createChatCompletion env post) MAX_RETRIES RETRY_DELAY s of
        (Inr completion, s1) \<Rightarrow> (Inr (readCompletion env completion), s1)
      | (Inl apiError, s1) \<Rightarrow>
          (Inr fallback,
           if (case apiError of Error m \<Rightarrow> str_includes m ''rate limit'' | NonError _ \<Rightarrow> False)
           then delay 15000 s1 else s1))"

definition analysisKey :: "string \<Rightarrow> string" where
  "analysisKey pid = ''post_analysis:'' @ pid"

definition analyzePostWithOpenAI :: "env \<Rightarrow> InstagramPost \<Rightarrow> (analysis, analysis, EventPost list) comp" where
  "analyzePostWithOpenAI env post =
     getCachedOrCompute (analysisKey (ig_id post)) (analyzeProducer env post) OPENAI_ANALYSIS_CACHE_TTL"

subsection \<open>scrapeAndDetectEvents\<close>

text \<open>The local variables of one run.\<close>

record run =
  events :: "EventPost list"
  totalProcessed :: nat
  totalEvents :: nat
  cacheHits :: nat
  cacheMisses :: nat
  analyzedPostIds :: "string set"

definition newRun :: run where
  "newRun = \<lparr>events = [], totalProcessed = 0, totalEvents = 0, cacheHits = 0, cacheMisses = 0,
             analyzedPostIds = {}\<rparr>"

text \<open>
  Lines 369 to 371: \<^verbatim>\<open>post.timestamp ? new Date(post.timestamp * 1000).toISOString() : new Date().toISOString()\<close>.
  A \<^verbatim>\<open>Date\<close> holds a time value of at most 8.64e15 ms either side of the epoch; beyond
  that it is invalid and \<^verbatim>\<open>toISOString\<close> throws a \<^verbatim>\<open>RangeError\<close>.
\<close>

definition validTime :: "int \<Rightarrow> bool" where
  "validTime ms = (\<bar>ms\<bar> \<le> 8640000000000000)"

definition postDateOf :: "InstagramPost \<Rightarrow> nat \<Rightarrow> thrown + int" where
  "postDateOf post now =
     (case ig_timestamp post of
        None \<Rightarrow> Inr (int now)
      | Some ts \<Rightarrow>
          if ts = 0 then Inr (int now)
          else if validTime (ts * 1000) then Inr (ts * 1000)
          else Inl (Error ''Invalid time value''))"

text \<open>Lines 373 to 388: the event built for a post, its analysis and its date.\<close>

definition eventPostOf :: "string \<Rightarrow> InstagramPost \<Rightarrow> analysis \<Rightarrow> int \<Rightarrow> EventPost" where
  "eventPostOf username post a postDate =
     \<lparr>account = username,
      post_id = ig_id post,
      post_url = orText (ig_url post)
                   (''https://www.instagram.com/p/'' @ (case ig_shortcode post of None \<Rightarrow> ''undefined'' | Some c \<Rightarrow> c) @ ''/''),
      post_date = postDate,
      caption = (if truthy (ig_caption post) then ig_caption post else None),
      image_url = (if truthy (orElse (ig_display_url post) (ig_image_url post))
                   then orElse (ig_display_url post) (ig_image_url post) else None),
      is_event = True,
      event_type = Some (orText (eventType a) ''other''),
      event_details = Some (case eventDetails a of None \<Rightarrow> ''{}'' | Some d \<Rightarrow> d),
      confidence_score = confidenceScore a\<rparr>"

text \<open>
  Lines 364 to 397: what is done with the analysis of a post. The count of detected
  events is raised first; the date conversion may then throw, which leaves the block
  before the event is built and stored.
\<close>

definition processAnalysis ::
  "env \<Rightarrow> string \<Rightarrow> InstagramPost \<Rightarrow> analysis \<Rightarrow> run \<times> detector
     \<Rightarrow> (thrown + unit) \<times> run \<times> detector" where
  "processAnalysis env username post a rs =
     (case rs of (r, s) \<Rightarrow>
        if isEvent a \<and> confidenceScore a \<ge> MIN_CONFIDENCE_THRESHOLD then
          (case postDateOf post (clock s) of
             Inl e \<Rightarrow> (Inl e, r\<lparr>totalEvents := totalEvents r + 1\<rparr>, s)
           | Inr postDate \<Rightarrow>
               (case storeEventInSupabase env (eventPostOf username post a postDate) s of
                  (stored, s1) \<Rightarrow>
                    (Inr (),
                     if stored
                     then r\<lparr>events := events r @ [eventPostOf username post a postDate],
                            totalEvents := totalEvents r + 1\<rparr>
                     else r\<lparr>totalEvents := totalEvents r + 1\<rparr>,
                     s1)))
        else (Inr (), r, s))"

text \<open>
  Lines 326 to 405: the body of the loop over the posts of an account. A
  \<^verbatim>\<open>continue\<close> skips the wait of 500 ms at the end of the body; an error thrown in
  the \<^verbatim>\<open>try\<close> block is caught and logged by the \<^verbatim>\<open>catch\<close> of line 398, and the wait
  follows.
\<close>

definition processPost ::
  "env \<Rightarrow> string \<Rightarrow> InstagramPost \<Rightarrow> run \<times> detector \<Rightarrow> run \<times> detector" where
  "processPost env username post rs =
     (case rs of (r, s) \<Rightarrow>
        let s0 = s\<lparr>trace := trace s @ [SeenCheck (ig_id post)]\<rparr> in
        if ig_id post \<in> analyzedPostIds r then (r, s0)
        else
          let r1 = r\<lparr>analyzedPostIds := insert (ig_id post) (analyzedPostIds r)\<rparr> in
          (case select_existing env (ig_id post) s0 of
             (Some existingPost, s1) \<Rightarrow> (r1\<lparr>cacheHits := cacheHits r1 + 1\<rparr>, s1)
           | (None, s1) \<Rightarrow>
               (case getCached (analysisKey (ig_id post)) s1 of
                  (cachedAnalysis, s2) \<Rightarrow>
                    (case analyzePostWithOpenAI env post s2 of
                       (Inl e, s3) \<Rightarrow> (r1, delay 500 s3)
                     | (Inr a, s3) \<Rightarrow>
                         (case processAnalysis env username post a
                                 (if cachedAnalysis \<noteq> None
                                  then r1\<lparr>cacheHits := cacheHits r1 + 1\<rparr>
                                  else r1\<lparr>cacheMisses := cacheMisses r1 + 1\<rparr>, s3) of
                            (Inl e, r3, s4) \<Rightarrow> (r3, delay 500 s4)
                          | (Inr done, r3, s4) \<Rightarrow> (r3, delay 500 s4))))))"

fun processPosts ::
  "env \<Rightarrow> string \<Rightarrow> InstagramPost list \<Rightarrow> run \<times> detector \<Rightarrow> run \<times> detector" where
  "processPosts env username [] rs = rs"
| "processPosts env username (post # ps) rs =
     processPosts env username ps (processPost env username post rs)"

text \<open>Lines 295 to 410: the body of the loop over the accounts.\<close>

definition processAccount ::
  "env \<Rightarrow> nat \<Rightarrow> string \<Rightarrow> run \<times> detector \<Rightarrow> run \<times> detector" where
  "processAccount env postsPerAccount username rs =
     (case rs of (r, s) \<Rightarrow>
        (case withRetry (ext (Fetch username) (scraper_getPosts env username postsPerAccount))
                MAX_RETRIES RETRY_DELAY (delay (2000 + jitter env (calls s)) s) of
           (Inl e, s2) \<Rightarrow> (r, s2)
         | (Inr results, s2) \<Rightarrow>
             (case posts results of
                None \<Rightarrow> (r, s2)
              | Some ps \<Rightarrow>
                  if \<not> success results \<or> ps = [] then (r, s2)
                  else processPosts env username ps
                         (r\<lparr>totalProcessed := totalProcessed r + length ps\<rparr>, s2))))"

fun processAccounts ::
  "env \<Rightarrow> nat \<Rightarrow> string list \<Rightarrow> run \<times> detector \<Rightarrow> run \<times> detector" where
  "processAccounts env postsPerAccount [] rs = rs"
| "processAccounts env postsPerAccount (username # us) rs =
     processAccounts env postsPerAccount us (processAccount env postsPerAccount username rs)"

text \<open>
  One run: the events stored, with the run's counters and the state it leaves. The
  summary printed at the end reads the cache statistics and changes nothing.
\<close>

definition scrapeAndDetectEvents ::
  "env \<Rightarrow> string list \<Rightarrow> nat \<Rightarrow> detector \<Rightarrow> run \<times> detector" where
  "scrapeAndDetectEvents env accounts postsPerAccount s =
     processAccounts env postsPerAccount accounts (newRun, s)"

subsection \<open>The three layers of the dedup guard, and the count of classification calls\<close>

text \<open>
  What each layer answers when the loop body starts on \<open>post\<close> with the run's
  variables \<open>r\<close> in state \<open>s\<close>: the run-local set (line 329), the query of the
  stored events (lines 338 to 344, made after the set was consulted), and the cache
  lookup (line 352, made after the query returned).
\<close>

definition inRunSet :: "InstagramPost \<Rightarrow> run \<Rightarrow> bool" where
  "inRunSet post r = (ig_id post \<in> analyzedPostIds r)"

definition inStore :: "env \<Rightarrow> InstagramPost \<Rightarrow> detector \<Rightarrow> bool" where
  "inStore env post s =
     (fst (select_existing env (ig_id post) (s\<lparr>trace := trace s @ [SeenCheck (ig_id post)]\<rparr>)) \<noteq> None)"

definition inCache :: "env \<Rightarrow> InstagramPost \<Rightarrow> detector \<Rightarrow> bool" where
  "inCache env post s =
     (fst (getCached (analysisKey (ig_id post))
            (snd (select_existing env (ig_id post) (s\<lparr>trace := trace s @ [SeenCheck (ig_id post)]\<rparr>))))
      \<noteq> None)"

text \<open>How often the classification service has been called for item \<open>j\<close> so far.\<close>

definition classified :: "string \<Rightarrow> ('v, 'd) state \<Rightarrow> nat" where
  "classified j s = count_list (trace s) (Classify j)"

text \<open>
  The calls made so far for item \<open>j\<close> plus the calls a run may still make for it:
  none once \<open>j\<close> is in the run-local set.
\<close>

definition potential :: "string \<Rightarrow> run \<times> detector \<Rightarrow> nat" where
  "potential j rs =
     classified j (snd rs) + (if j \<in> analyzedPostIds (fst rs) then 0 else MAX_RETRIES)"

text \<open>
  A completion from which no verdict can be read: it has no choices, or the text of its
  first choice holds no braces to match, or \<^verbatim>\<open>JSON.parse\<close> rejects what was matched.
\<close>

definition unusable :: "env \<Rightarrow> ChatCompletion \<Rightarrow> bool" where
  "unusable env c =
     (case choices c of
        None \<Rightarrow> True
      | Some [] \<Rightarrow> True
      | Some (choice # _) \<Rightarrow>
          (case jsonMatch (orText choice []) of
             None \<Rightarrow> True
           | Some m \<Rightarrow> JSON_parse env m = None))"

subsection \<open>One scheduled run\<close>

text \<open>
  The scheduler (src/scheduler.ts, \<^verbatim>\<open>executeScript\<close> and \<^verbatim>\<open>scheduleEventDetectorJob\<close>)
  starts every detection as a command of its own,
  \<^verbatim>\<open>npx ts-node --transpile-only event-detector.ts\<close>. The new process loads
  src/utils/cache.ts, whose line 8 creates the cache, empty; the database and the clock
  are what the last run left. \<^verbatim>\<open>main\<close> then calls \<^verbatim>\<open>scrapeAndDetectEvents\<close> with five
  posts per account (line 510) on the accounts it read from the watchlist.
\<close>

definition newProcess :: "detector \<Rightarrow> detector" where
  "newProcess s = s\<lparr>cache := emptyCache\<rparr>"

definition executeScript :: "env \<Rightarrow> string list \<Rightarrow> detector \<Rightarrow> run \<times> detector" where
  "executeScript env followings s = scrapeAndDetectEvents env followings 5 (newProcess s)"

section \<open>The followings statistics (src/pages/api/followings/stats.ts)\<close>

definition HISTORY_CACHE_TTL :: nat where
  "HISTORY_CACHE_TTL = 60 * 60 * 4 - 60 * 5"

text \<open>
  The tables \<^verbatim>\<open>watchlist\<close> and \<^verbatim>\<open>watchlist_history\<close>, at the columns the statistics read
  (\<open>wl_account\<close> and \<open>hs_account\<close> are the two \<^verbatim>\<open>account\<close> columns; times are
  milliseconds since the epoch).
\<close>

record WatchlistRow =
  wl_account :: string
  followings :: "string list"

record HistorySample =
  hs_account :: string
  followings_count :: int
  created_at :: nat

record StatsDb =
  watchlist :: "WatchlistRow list"
  watchlist_history :: "HistorySample list"

record FollowingsStats =
  totalFollowings :: int
  dailyChange :: int
  weeklyChange :: int
  monthlyChange :: int

text \<open>
  The built-in date arithmetic, as functions of the current time: the three window
  boundaries (\<^verbatim>\<open>setDate(getDate() - 1)\<close>, \<^verbatim>\<open>setDate(getDate() - 7)\<close> and
  \<^verbatim>\<open>setMonth(getMonth() - 1)\<close> on a new \<^verbatim>\<open>Date\<close>), and the day of a time as
  \<^verbatim>\<open>toISOString().split('T')[0]\<close> writes it.
\<close>

record calendar =
  oneDayAgo :: "nat \<Rightarrow> nat"
  oneWeekAgo :: "nat \<Rightarrow> nat"
  oneMonthAgo :: "nat \<Rightarrow> nat"
  isoDay :: "nat \<Rightarrow> string"

type_synonym stats = "(int option, StatsDb) state"

text \<open>
  The query of lines 141 to 147: the samples of the account created at or before the
  date, latest first, at most one of them. (Among samples of the same instant the
  database may return any; the one inserted last is taken.)
\<close>

definition history_rows :: "string \<Rightarrow> nat \<Rightarrow> HistorySample list \<Rightarrow> HistorySample list" where
  "history_rows a date rows =
     take 1 (rev (sort_key created_at (filter (\<lambda>r. hs_account r = a \<and> created_at r \<le> date) rows)))"

text \<open>The count of the nearest sample at or before the date, if there is one.\<close>

definition nearestCount :: "string \<Rightarrow> nat \<Rightarrow> StatsDb \<Rightarrow> int option" where
  "nearestCount a date d =
     (case history_rows a date (watchlist_history d) of
        [] \<Rightarrow> None
      | r # _ \<Rightarrow> Some (followings_count r))"

text \<open>
  The producer of lines 137 to 159: \<^verbatim>\<open>null\<close> when the query fails or returns no row,
  else the count of the row.
\<close>

definition historyProducer :: "env \<Rightarrow> string \<Rightarrow> nat \<Rightarrow> (int option, int option, StatsDb) comp" where
  "historyProducer env a date s =
     (Inr (if snd (supabase_up env (calls s)) then nearestCount a date (db s) else None),
      s\<lparr>clock := clock s + fst (supabase_up env (calls s)),
        calls := Suc (calls s),
        trace := trace s @ [HistorySelect a date]\<rparr>)"

definition historyKey :: "calendar \<Rightarrow> string \<Rightarrow> nat \<Rightarrow> string" where
  "historyKey cal a date = ''followings_history:'' @ a @ '':'' @ isoDay cal date"

definition getDifferenceFromDate ::
  "env \<Rightarrow> calendar \<Rightarrow> string \<Rightarrow> nat \<Rightarrow> (int option, int option, StatsDb) comp" where
  "getDifferenceFromDate env cal a date =
     getCachedOrCompute (historyKey cal a date) (historyProducer env a date) HISTORY_CACHE_TTL"

text \<open>
  Lines 64 to 82: the current count. \<^verbatim>\<open>.single()\<close> reports an error unless exactly
  one row matches, and any error is thrown as \<^verbatim>\<open>ApiErrors.ServiceUnavailable('Database')\<close>.
\<close>

definition currentFollowings :: "env \<Rightarrow> string \<Rightarrow> (int, int option, StatsDb) comp" where
  "currentFollowings env a s =
     ((if snd (supabase_up env (calls s))
       then (case filter (\<lambda>r. wl_account r = a) (watchlist (db s)) of
               [currentEntry] \<Rightarrow> Inr (int (length (followings currentEntry)))
             | _ \<Rightarrow> Inl (Error ''Database service unavailable''))
       else Inl (Error ''Database service unavailable'')),
      s\<lparr>clock := clock s + fst (supabase_up env (calls s)),
        calls := Suc (calls s),
        trace := trace s @ [WatchlistSelect a]\<rparr>)"

text \<open>\<^verbatim>\<open>historicalResult || currentFollowingsCount\<close>: \<^verbatim>\<open>null\<close> and 0 are falsy.\<close>

definition orCurrent :: "int option \<Rightarrow> int \<Rightarrow> int" where
  "orCurrent historicalResult currentFollowingsCount =
     (case historicalResult of
        None \<Rightarrow> currentFollowingsCount
      | Some n \<Rightarrow> if n = 0 then currentFollowingsCount else n)"

text \<open>
  Lines 91 to 105: the three boundaries are taken from the same instant, and
  \<^verbatim>\<open>Promise.all\<close> starts the three lookups in the order day, week, month. They are
  composed in that order here, which gives the results of the concurrent lookups
  whenever the three cache keys differ.
\<close>

definition historicalResults ::
  "env \<Rightarrow> calendar \<Rightarrow> string \<Rightarrow> (int option \<times> int option \<times> int option, int option, StatsDb) comp" where
  "historicalResults env cal a s =
     (case getDifferenceFromDate env cal a (oneDayAgo cal (clock s)) s of
        (Inl e, s1) \<Rightarrow> (Inl e, s1)
      | (Inr dayResult, s1) \<Rightarrow>
          (case getDifferenceFromDate env cal a (oneWeekAgo cal (clock s)) s1 of
             (Inl e, s2) \<Rightarrow> (Inl e, s2)
           | (Inr weekResult, s2) \<Rightarrow>
               (case getDifferenceFromDate env cal a (oneMonthAgo cal (clock s)) s2 of
                  (Inl e, s3) \<Rightarrow> (Inl e, s3)
                | (Inr monthResult, s3) \<Rightarrow> (Inr (dayResult, weekResult, monthResult), s3))))"

definition computeFollowingsStats ::
  "env \<Rightarrow> calendar \<Rightarrow> string \<Rightarrow> (FollowingsStats, int option, StatsDb) comp" where
  "computeFollowingsStats env cal a s =
     (case currentFollowings env a s of
        (Inl e, s0) \<Rightarrow> (Inl e, s0)
      | (Inr currentFollowingsCount, s0) \<Rightarrow>
          (case historicalResults env cal a s0 of
             (Inl e, s3) \<Rightarrow>
               (Inr \<lparr>totalFollowings = currentFollowingsCount,
                     dailyChange = 0, weeklyChange = 0, monthlyChange = 0\<rparr>, s3)
           | (Inr (dayResult, weekResult, monthResult), s3) \<Rightarrow>
               (Inr \<lparr>totalFollowings = currentFollowingsCount,
                     dailyChange = currentFollowingsCount - orCurrent dayResult currentFollowingsCount,
                     weeklyChange = currentFollowingsCount - orCurrent weekResult currentFollowingsCount,
                     monthlyChange = currentFollowingsCount - orCurrent monthResult currentFollowingsCount\<rparr>,
                s3)))"

text \<open>
  The three window boundaries and their cache keys for a computation started in state
  \<open>s\<close>: the boundaries are read when the current count has arrived.
\<close>

definition dayBoundary :: "env \<Rightarrow> calendar \<Rightarrow> string \<Rightarrow> stats \<Rightarrow> nat" where
  "dayBoundary env cal a s = oneDayAgo cal (clock (snd (currentFollowings env a s)))"

definition weekBoundary :: "env \<Rightarrow> calendar \<Rightarrow> string \<Rightarrow> stats \<Rightarrow> nat" where
  "weekBoundary env cal a s = oneWeekAgo cal (clock (snd (currentFollowings env a s)))"

definition monthBoundary :: "env \<Rightarrow> calendar \<Rightarrow> string \<Rightarrow> stats \<Rightarrow> nat" where
  "monthBoundary env cal a s = oneMonthAgo cal (clock (snd (currentFollowings env a s)))"

definition windowKeys :: "env \<Rightarrow> calendar \<Rightarrow> string \<Rightarrow> stats \<Rightarrow> string list" where
  "windowKeys env cal a s =
     [historyKey cal a (dayBoundary env cal a s),
      historyKey cal a (weekBoundary env cal a s),
      historyKey cal a (monthBoundary env cal a s)]"

section \<open>Example inputs\<close>

text \<open>A fresh process at time 0 with an empty cache.\<close>

definition idle :: "(int, unit) state" where
  "idle = \<lparr>clock = 0, calls = 0, trace = [], cache = emptyCache, db = ()\<rparr>"

text \<open>
  At time 5000 the cache still holds an entry for key \<open>k\<close> that was written at
  time 0 with a TTL of one second: expired, not yet swept.
\<close>

definition stale :: "(int, unit) state" where
  "stale = \<lparr>clock = 5000, calls = 0, trace = [],
            cache = cache_set 0 ''k'' 7 1 emptyCache, db = ()\<rparr>"

text \<open>A producer that fails after 20 ms, and one that succeeds with 42.\<close>

definition failing :: "(int, int, unit) comp" where
  "failing = ext Invoke (\<lambda>n. (20, Inl (Error ''unavailable'')))"

definition producing :: "(int, int, unit) comp" where
  "producing = ext Invoke (\<lambda>n. (20, Inr 42))"

text \<open>
  An operation that times out on its first two calls and then returns 7, and one that
  fails on every call, the third time by throwing a string.
\<close>

definition flaky :: "nat \<Rightarrow> nat \<times> (thrown + int)" where
  "flaky n = (if n < 2 then (20, Inl (Error ''timeout'')) else (20, Inr 7))"

definition broken :: "nat \<Rightarrow> nat \<times> (thrown + int)" where
  "broken n = (20, Inl (if n = 2 then NonError ''last'' else Error ''early''))"

text \<open>
  A detector process started at time 0 with an empty cache and an empty table, watching
  one account whose only recent post \<open>p1\<close> is not an event. Every request succeeds:
  the scraper returns the post, the classification service answers with a JSON object
  that reads as a non-event of confidence 10, the database is reachable.
\<close>

definition p1 :: InstagramPost where
  "p1 = \<lparr>ig_id = ''p1'', ig_shortcode = Some ''abc'', ig_display_url = Some ''http://img/1'',
          ig_image_url = None, ig_url = None, ig_caption = Some ''Friday prayer'',
          ig_timestamp = Some 1700000000\<rparr>"

definition notEvent :: analysis where
  "notEvent = \<lparr>isEvent = False, eventType = None, eventDetails = None, confidenceScore = 10\<rparr>"

definition world :: env where
  "world = \<lparr>jitter = (\<lambda>n. 1000),
            scraper_getPosts = (\<lambda>username cnt n. (200, Inr \<lparr>success = True, posts = Some [p1]\<rparr>)),
            openai_createChatCompletion = (\<lambda>cap img n. (900, Inr \<lparr>choices = Some [Some ''{}'']\<rparr>)),
            supabase_up = (\<lambda>n. (30, True)),
            JSON_parse = (\<lambda>t. Some notEvent)\<rparr>"

definition boot :: detector where
  "boot = \<lparr>clock = 0, calls = 0, trace = [], cache = emptyCache, db = []\<rparr>"

text \<open>The state the first run leaves, and the same process eight days later.\<close>

definition afterFirstRun :: detector where
  "afterFirstRun = snd (scrapeAndDetectEvents world [''acct''] 5 boot)"

definition eightDaysLater :: detector where
  "eightDaysLater = afterFirstRun\<lparr>clock := clock afterFirstRun + 691200000\<rparr>"


definition likely :: analysis where
  "likely = \<lparr>isEvent = True, eventType = Some ''seminar'', eventDetails = None, confidenceScore = 95\<rparr>"


text \<open>
  The collaborators during an outage of the classification service (every request is
  refused for its rate limit), and with a service that answers in prose.
\<close>

definition outage :: env where
  "outage = world\<lparr>openai_createChatCompletion :=
               (\<lambda>cap img n. (100, Inl (Error ''429: rate limit exceeded'')))\<rparr>"

definition chatty :: env where
  "chatty = world\<lparr>openai_createChatCompletion :=
               (\<lambda>cap img n. (900, Inr \<lparr>choices = Some [Some ''I cannot tell.'']\<rparr>)),
             JSON_parse := (\<lambda>t. None)\<rparr>"

text \<open>
  The statistics of account \<open>alice\<close>, who follows seven accounts. Two samples of her
  history were recorded on 2026-11-01: a count of 5 at 09:00 and a count of 0 at 11:00
  (UTC). The calendar is that of the JavaScript \<^verbatim>\<open>Date\<close> in UTC on the days the
  examples touch; the statistics are asked for on 2026-11-02 at 10:00 and again at 12:00.
\<close>

definition november :: calendar where
  "november =
     \<lparr>oneDayAgo = (\<lambda>t. t - 86400000),
      oneWeekAgo = (\<lambda>t. t - 604800000),
      oneMonthAgo = (\<lambda>t. t - 2678400000),
      isoDay = (\<lambda>t. if t div 86400000 = 20758 then ''2026-11-01''
                   else if t div 86400000 = 20752 then ''2026-10-26''
                   else if t div 86400000 = 20728 then ''2026-10-02''
                   else ''1970-01-01'')\<rparr>"

definition aliceDb :: StatsDb where
  "aliceDb =
     \<lparr>watchlist = [\<lparr>wl_account = ''alice'', followings = [''a'', ''b'', ''c'', ''d'', ''e'', ''f'', ''g'']\<rparr>],
      watchlist_history =
        [\<lparr>hs_account = ''alice'', followings_count = 5, created_at = 1793523600000\<rparr>,
         \<lparr>hs_account = ''alice'', followings_count = 0, created_at = 1793530800000\<rparr>]\<rparr>"

definition atTen :: stats where
  "atTen = \<lparr>clock = 1793613600000, calls = 0, trace = [], cache = emptyCache, db = aliceDb\<rparr>"

definition atNoon :: stats where
  "atNoon = (snd (computeFollowingsStats world november ''alice'' atTen))\<lparr>clock := 1793620800000\<rparr>"

definition freshAtNoon :: stats where
  "freshAtNoon = atTen\<lparr>clock := 1793620800000\<rparr>"

text \<open>
  The table after \<open>p1\<close> was accepted as a seminar; a service that finds a seminar
  in every post; and a post whose timestamp lies a second beyond the last date a
  JavaScript \<^verbatim>\<open>Date\<close> can hold.
\<close>

definition archived :: detector where
  "archived = boot\<lparr>db := [eventPostOf ''acct'' p1 likely 1700000000000]\<rparr>"

text \<open>The collaborators while the store refuses every request.\<close>

definition storeDown :: env where
  "storeDown = world\<lparr>supabase_up := (\<lambda>n. (30, False))\<rparr>"



text \<open>
  The state a scheduled run leaves when the classification service is down, and the
  state in which the scheduler starts the next run two hours later.
\<close>

definition afterOutage :: detector where
  "afterOutage = snd (executeScript outage [''acct''] boot)"

definition twoHoursOn :: detector where
  "twoHoursOn = afterOutage\<lparr>clock := clock afterOutage + 7200000\<rparr>"

section \<open>Properties of the retry executor\<close>

declare withRetry_from.simps [simp del]

lemma ext_simps [simp]:
  "fst (ext a reply s) = snd (reply (calls s))"
  "calls (snd (ext a reply s)) = Suc (calls s)"
  "trace (snd (ext a reply s)) = trace s @ [a]"
  "clock (snd (ext a reply s)) = clock s + fst (reply (calls s))"
  "cache (snd (ext a reply s)) = cache s"
  "db (snd (ext a reply s)) = db s"
  by (simp_all add: ext_def)

lemma delay_simps [simp]:
  "calls (delay ms s) = calls s"
  "trace (delay ms s) = trace s @ [Wait ms]"
  "clock (delay ms s) = clock s + ms"
  "cache (delay ms s) = cache s"
  "db (delay ms s) = db s"
  by (simp_all add: delay_def)

lemma retry_waits_0 [simp]: "retry_waits a d attempt 0 = []"
  by (simp add: retry_waits_def)

lemma retry_waits_Suc:
  "retry_waits a d attempt (Suc j) = a # Wait (d * 2 ^ (attempt - 1)) # retry_waits a d (Suc attempt) j"
proof -
  have "[0..<Suc j] = 0 # map Suc [0..<j]"
    by (simp add: upt_conv_Cons map_Suc_upt del: upt_Suc)
  then show ?thesis
    by (simp add: retry_waits_def comp_def del: upt_Suc)
qed

lemma withRetry_from_success:
  assumes "\<forall>i<j. isl (snd (rs (calls s + i)))"
    and "snd (rs (calls s + j)) = Inr x"
    and "attempt + j \<le> retries"
  shows "fst (withRetry_from (ext a rs) retries d attempt le s) = Inr x
       \<and> calls (snd (withRetry_from (ext a rs) retries d attempt le s)) = calls s + Suc j
       \<and> trace (snd (withRetry_from (ext a rs) retries d attempt le s)) = trace s @ retry_waits a d attempt j @ [a]
       \<and> cache (snd (withRetry_from (ext a rs) retries d attempt le s)) = cache s
       \<and> db (snd (withRetry_from (ext a rs) retries d attempt le s)) = db s
       \<and> clock s \<le> clock (snd (withRetry_from (ext a rs) retries d attempt le s))"
  using assms
proof (induction j arbitrary: attempt le s)
  case 0
  then show ?case
    by (subst (1 2 3 4 5 6) withRetry_from.simps) (simp add: case_prod_beta split: sum.splits)
next
  case (Suc j)
  obtain e where e: "snd (rs (calls s)) = Inl e"
    using Suc.prems(1)[rule_format, of 0] by (cases "snd (rs (calls s))") auto
  let ?s1 = "delay (d * 2 ^ (attempt - 1)) (snd (ext a rs s))"
  have lt: "attempt < retries" using Suc.prems(3) by simp
  have step: "withRetry_from (ext a rs) retries d attempt le s
      = withRetry_from (ext a rs) retries d (Suc attempt) (Some (toError e)) ?s1"
    using lt e by (subst withRetry_from.simps) (simp add: case_prod_beta ext_def)
  have a1: "\<forall>i<j. isl (snd (rs (calls ?s1 + i)))"
    using Suc.prems(1) by auto
  have a2: "snd (rs (calls ?s1 + j)) = Inr x" using Suc.prems(2) by simp
  have a3: "Suc attempt + j \<le> retries" using Suc.prems(3) by simp
  show ?case
    unfolding step using Suc.IH[OF a1 a2 a3, of "Some (toError e)"]
    by (simp add: retry_waits_Suc)
qed

lemma withRetry_from_exhaust:
  assumes "\<forall>i\<le>j. isl (snd (rs (calls s + i)))"
    and "attempt + j = retries"
  shows "fst (withRetry_from (ext a rs) retries d attempt le s) = Inl (toError (projl (snd (rs (calls s + j)))))
       \<and> calls (snd (withRetry_from (ext a rs) retries d attempt le s)) = calls s + Suc j
       \<and> trace (snd (withRetry_from (ext a rs) retries d attempt le s)) = trace s @ retry_waits a d attempt j @ [a]
       \<and> cache (snd (withRetry_from (ext a rs) retries d attempt le s)) = cache s
       \<and> db (snd (withRetry_from (ext a rs) retries d attempt le s)) = db s
       \<and> clock s \<le> clock (snd (withRetry_from (ext a rs) retries d attempt le s))"
  using assms
proof (induction j arbitrary: attempt le s)
  case 0
  obtain e where e: "snd (rs (calls s)) = Inl e"
    using "0.prems"(1) by (cases "snd (rs (calls s))") auto
  have stop: "withRetry_from (ext a rs) retries d (Suc retries) (Some (toError e)) (snd (ext a rs s))
      = (Inl (toError e), snd (ext a rs s))"
    by (subst withRetry_from.simps) simp
  have "withRetry_from (ext a rs) retries d attempt le s = (Inl (toError e), snd (ext a rs s))"
    using "0.prems"(2) e stop by (subst withRetry_from.simps) (simp add: case_prod_beta ext_def)
  then show ?case using e by simp
next
  case (Suc j)
  obtain e where e: "snd (rs (calls s)) = Inl e"
    using Suc.prems(1)[rule_format, of 0] by (cases "snd (rs (calls s))") auto
  let ?s1 = "delay (d * 2 ^ (attempt - 1)) (snd (ext a rs s))"
  have lt: "attempt < retries" using Suc.prems(2) by simp
  have step: "withRetry_from (ext a rs) retries d attempt le s
      = withRetry_from (ext a rs) retries d (Suc attempt) (Some (toError e)) ?s1"
    using lt e by (subst withRetry_from.simps) (simp add: case_prod_beta ext_def)
  have a1: "\<forall>i\<le>j. isl (snd (rs (calls ?s1 + i)))"
    using Suc.prems(1) by auto
  have a3: "Suc attempt + j = retries" using Suc.prems(2) by simp
  show ?case
    unfolding step using Suc.IH[OF a1 a3, of "Some (toError e)"]
    by (simp add: retry_waits_Suc)
qed

lemma retry_waits_1:
  "retry_waits a d (Suc 0) j = concat (map (\<lambda>k. [a, Wait (d * 2 ^ (k - 1))]) [1..<Suc j])"
proof -
  have "[1..<Suc j] = map Suc [0..<j]"
    by (simp add: map_Suc_upt del: upt_Suc)
  then show ?thesis
    by (simp add: retry_waits_def comp_def del: upt_Suc)
qed

lemma withRetry_success:
  assumes "\<forall>i<j. isl (snd (rs (calls s + i)))"
    and "snd (rs (calls s + j)) = Inr x"
    and "Suc j \<le> n"
  shows "fst (withRetry (ext a rs) n d s) = Inr x"
    and "calls (snd (withRetry (ext a rs) n d s)) = calls s + Suc j"
    and "trace (snd (withRetry (ext a rs) n d s)) = trace s @ retry_waits a d (Suc 0) j @ [a]"
    and "cache (snd (withRetry (ext a rs) n d s)) = cache s"
    and "db (snd (withRetry (ext a rs) n d s)) = db s"
    and "clock s \<le> clock (snd (withRetry (ext a rs) n d s))"
proof -
  have le: "Suc 0 + j \<le> n" using assms(3) by simp
  note r = withRetry_from_success[OF assms(1) assms(2) le, of a d None]
  show "fst (withRetry (ext a rs) n d s) = Inr x"
    and "calls (snd (withRetry (ext a rs) n d s)) = calls s + Suc j"
    and "trace (snd (withRetry (ext a rs) n d s)) = trace s @ retry_waits a d (Suc 0) j @ [a]"
    and "cache (snd (withRetry (ext a rs) n d s)) = cache s"
    and "db (snd (withRetry (ext a rs) n d s)) = db s"
    and "clock s \<le> clock (snd (withRetry (ext a rs) n d s))"
    using r by (simp_all add: withRetry_def)
qed

lemma withRetry_exhaust:
  assumes "\<forall>i\<le>j. isl (snd (rs (calls s + i)))"
    and "Suc j = n"
  shows "fst (withRetry (ext a rs) n d s) = Inl (toError (projl (snd (rs (calls s + j)))))"
    and "calls (snd (withRetry (ext a rs) n d s)) = calls s + Suc j"
    and "trace (snd (withRetry (ext a rs) n d s)) = trace s @ retry_waits a d (Suc 0) j @ [a]"
    and "cache (snd (withRetry (ext a rs) n d s)) = cache s"
    and "db (snd (withRetry (ext a rs) n d s)) = db s"
    and "clock s \<le> clock (snd (withRetry (ext a rs) n d s))"
proof -
  have eq: "Suc 0 + j = n" using assms(2) by simp
  note r = withRetry_from_exhaust[OF assms(1) eq, of a d None]
  show "fst (withRetry (ext a rs) n d s) = Inl (toError (projl (snd (rs (calls s + j)))))"
    and "calls (snd (withRetry (ext a rs) n d s)) = calls s + Suc j"
    and "trace (snd (withRetry (ext a rs) n d s)) = trace s @ retry_waits a d (Suc 0) j @ [a]"
    and "cache (snd (withRetry (ext a rs) n d s)) = cache s"
    and "db (snd (withRetry (ext a rs) n d s)) = db s"
    and "clock s \<le> clock (snd (withRetry (ext a rs) n d s))"
    using r by (simp_all add: withRetry_def)
qed

section \<open>Properties of the cache wrapper\<close>

lemma getCached_Some:
  "fst (getCached k s) = Some x \<Longrightarrow>
     \<exists>e. entries (cache s) k = Some e \<and> entryValue e = x \<and> \<not> expired (clock s) e"
  by (auto simp: getCached_def cache_get_def split: option.splits if_splits)

lemma getCached_swept:
  "t \<le> clock s \<Longrightarrow>
     fst (getCached k (s\<lparr>cache := cache_sweep t (cache s)\<rparr>)) = fst (getCached k s)"
  by (auto simp: getCached_def cache_get_def cache_sweep_def expired_def split: option.splits)

lemma getCachedOrCompute_hit:
  "getCached key s = (Some x, s1) \<Longrightarrow> getCachedOrCompute key g ttl s = (Inr x, s1)"
  by (simp add: getCachedOrCompute_def)

lemma getCached_after_set:
  "getCached key (setCached key x ttl s)
   = (Some x, (setCached key x ttl s)\<lparr>trace := trace s @ [CacheGet key],
        cache := (cache (setCached key x ttl s))\<lparr>hits := hits (cache s) + 1\<rparr>\<rparr>)"
  by (simp add: getCached_def setCached_def cache_get_def cache_set_def expired_def)

lemma getCached_None_entries:
  "getCached key s = (None, s1) \<Longrightarrow>
     entries (cache s1) = (entries (cache s))(key := None)
     \<and> hits (cache s1) = hits (cache s) \<and> misses (cache s1) = misses (cache s) + 1
     \<and> clock s1 = clock s \<and> calls s1 = calls s \<and> db s1 = db s
     \<and> trace s1 = trace s @ [CacheGet key]"
  by (auto simp: getCached_def cache_get_def split: option.splits if_splits)

section \<open>Properties of the event detector\<close>

lemma classified_delay [simp]: "classified j (delay ms s) = classified j s"
  by (simp add: classified_def)

lemma classified_trace_app:
  "trace s' = trace s @ new \<Longrightarrow> classified j s' = classified j s + count_list new (Classify j)"
  by (simp add: classified_def)

lemma getCached_frame:
  "trace (snd (getCached key s)) = trace s @ [CacheGet key]"
  "clock (snd (getCached key s)) = clock s"
  "calls (snd (getCached key s)) = calls s"
  "db (snd (getCached key s)) = db s"
  by (simp_all add: getCached_def case_prod_beta)

lemma setCached_frame [simp]:
  "trace (setCached key x ttl s) = trace s"
  "clock (setCached key x ttl s) = clock s"
  "calls (setCached key x ttl s) = calls s"
  "db (setCached key x ttl s) = db s"
  by (simp_all add: setCached_def)

lemma getCached_again:
  "fst (getCached key (snd (getCached key s))) = fst (getCached key s)"
  by (auto simp: getCached_def cache_get_def expired_def split: option.splits)

lemma select_existing_frame:
  "trace (snd (select_existing env pid s)) = trace s @ [StoreSelect pid]"
  "calls (snd (select_existing env pid s)) = Suc (calls s)"
  "cache (snd (select_existing env pid s)) = cache s"
  "db (snd (select_existing env pid s)) = db s"
  "clock (snd (select_existing env pid s)) = clock s + fst (supabase_up env (calls s))"
  by (simp_all add: select_existing_def)

lemma storeEventInSupabase_frame:
  "trace (snd (storeEventInSupabase env e s)) = trace s @ [StoreUpsert (post_id e)]"
  "calls (snd (storeEventInSupabase env e s)) = Suc (calls s)"
  "cache (snd (storeEventInSupabase env e s)) = cache s"
  "fst (storeEventInSupabase env e s) = snd (supabase_up env (calls s))"
  "db (snd (storeEventInSupabase env e s))
     = (if snd (supabase_up env (calls s)) then upsert_row e (db s) else db s)"
  by (simp_all add: storeEventInSupabase_def)

lemma post_id_eventPostOf [simp]: "post_id (eventPostOf u post a d) = ig_id post"
  by (simp add: eventPostOf_def)

lemma processAnalysis_trace:
  "trace (snd (snd (processAnalysis env u post a (r, s))))
     = trace s @ (if isEvent a \<and> MIN_CONFIDENCE_THRESHOLD \<le> confidenceScore a
                     \<and> \<not> isl (postDateOf post (clock s))
                  then [StoreUpsert (ig_id post)] else [])"
  by (cases "postDateOf post (clock s)")
    (simp_all add: processAnalysis_def case_prod_beta storeEventInSupabase_frame)

lemma processAnalysis_seen:
  "analyzedPostIds (fst (snd (processAnalysis env u post a (r, s)))) = analyzedPostIds r"
  by (cases "postDateOf post (clock s)") (simp_all add: processAnalysis_def case_prod_beta)

lemma withRetry_from_Inr:
  "k \<le> n \<Longrightarrow> snd (rs (calls s)) = Inr x \<Longrightarrow>
     withRetry_from (ext a rs) n d k le s = (Inr x, snd (ext a rs s))"
  by (subst withRetry_from.simps) (simp add: ext_def)

lemma withRetry_from_Inl:
  "k \<le> n \<Longrightarrow> snd (rs (calls s)) = Inl e \<Longrightarrow>
     withRetry_from (ext a rs) n d k le s
     = withRetry_from (ext a rs) n d (Suc k) (Some (toError e))
         (if k < n then delay (d * 2 ^ (k - 1)) (snd (ext a rs s)) else snd (ext a rs s))"
  by (subst withRetry_from.simps) (simp add: ext_def)

lemma withRetry_from_stop:
  "\<not> k \<le> n \<Longrightarrow>
     withRetry_from fn n d k le s
     = (Inl (case le of Some e \<Rightarrow> e | None \<Rightarrow> Error ''All retries failed''), s)"
  by (subst withRetry_from.simps) simp

lemma withRetry_from_trace:
  "\<exists>new. trace (snd (withRetry_from (ext a rs) n d k le s)) = trace s @ new
         \<and> (\<forall>b. (\<forall>m. b \<noteq> Wait m) \<longrightarrow> count_list new b \<le> (if b = a then Suc n - k else 0))"
proof (induction "Suc n - k" arbitrary: k le s)
  case 0
  then have "\<not> k \<le> n" by simp
  then show ?case by (simp add: withRetry_from_stop)
next
  case (Suc m)
  then have le: "k \<le> n" by simp
  show ?case
  proof (cases "snd (rs (calls s))")
    case (Inr x)
    show ?thesis
      unfolding withRetry_from_Inr[where rs = rs and s = s, OF le Inr] using le by auto
  next
    case (Inl e)
    let ?s2 = "if k < n then delay (d * 2 ^ (k - 1)) (snd (ext a rs s)) else snd (ext a rs s)"
    have m: "m = Suc n - Suc k" using Suc.hyps(2) by simp
    from Suc.hyps(1)[OF m, of "Some (toError e)" ?s2]
    obtain new where new: "trace (snd (withRetry_from (ext a rs) n d (Suc k) (Some (toError e)) ?s2))
            = trace ?s2 @ new"
        and cnt: "\<forall>b. (\<forall>m. b \<noteq> Wait m) \<longrightarrow> count_list new b \<le> (if b = a then Suc n - Suc k else 0)"
      by blast
    have t2: "trace ?s2 = trace s @ a # (if k < n then [Wait (d * 2 ^ (k - 1))] else [])"
      by simp
    show ?thesis
      unfolding withRetry_from_Inl[where rs = rs and s = s, OF le Inl] new t2
      using cnt le by (intro exI[of _ "a # (if k < n then [Wait (d * 2 ^ (k - 1))] else []) @ new"]) auto
  qed
qed

lemma withRetry_from_frame:
  "cache (snd (withRetry_from (ext a rs) n d k le s)) = cache s
   \<and> db (snd (withRetry_from (ext a rs) n d k le s)) = db s
   \<and> clock s \<le> clock (snd (withRetry_from (ext a rs) n d k le s))
   \<and> calls s \<le> calls (snd (withRetry_from (ext a rs) n d k le s))"
proof (induction "Suc n - k" arbitrary: k le s)
  case 0
  then have "\<not> k \<le> n" by simp
  then show ?case by (simp add: withRetry_from_stop)
next
  case (Suc m)
  then have le: "k \<le> n" by simp
  show ?case
  proof (cases "snd (rs (calls s))")
    case (Inr x)
    show ?thesis
      unfolding withRetry_from_Inr[where rs = rs and s = s, OF le Inr] by simp
  next
    case (Inl e)
    let ?s2 = "if k < n then delay (d * 2 ^ (k - 1)) (snd (ext a rs s)) else snd (ext a rs s)"
    have m: "m = Suc n - Suc k" using Suc.hyps(2) by simp
    show ?thesis
      unfolding withRetry_from_Inl[where rs = rs and s = s, OF le Inl]
      using Suc.hyps(1)[OF m, of "Some (toError e)" ?s2] by auto
  qed
qed

lemma withRetry_first_action:
  assumes "1 \<le> n"
  shows "\<exists>rest. trace (snd (withRetry (ext a rs) n d s)) = trace s @ a # rest"
proof -
  have le: "Suc 0 \<le> n" using assms by simp
  show ?thesis
  proof (cases "snd (rs (calls s))")
    case (Inr x)
    show ?thesis
      unfolding withRetry_def One_nat_def withRetry_from_Inr[where rs = rs and s = s, OF le Inr] by simp
  next
    case (Inl e)
    let ?s2 = "if Suc 0 < n then delay (d * 2 ^ (Suc 0 - 1)) (snd (ext a rs s)) else snd (ext a rs s)"
    obtain new where "trace (snd (withRetry_from (ext a rs) n d (Suc (Suc 0)) (Some (toError e)) ?s2)) = trace ?s2 @ new"
      using withRetry_from_trace by blast
    then show ?thesis
      unfolding withRetry_def One_nat_def withRetry_from_Inl[where rs = rs and s = s, OF le Inl] by auto
  qed
qed

lemma withRetry_classified:
  "classified j (snd (withRetry (ext a rs) n d s))
     \<le> classified j s + (if a = Classify j then n else 0)"
proof -
  obtain new where new: "trace (snd (withRetry (ext a rs) n d s)) = trace s @ new"
    and cnt: "\<forall>b. (\<forall>m. b \<noteq> Wait m) \<longrightarrow> count_list new b \<le> (if b = a then Suc n - 1 else 0)"
    unfolding withRetry_def using withRetry_from_trace by blast
  from cnt[rule_format, of "Classify j"] show ?thesis
    unfolding classified_trace_app[OF new] by auto
qed

lemma withRetry_frame:
  "cache (snd (withRetry (ext a rs) n d s)) = cache s"
  "db (snd (withRetry (ext a rs) n d s)) = db s"
  "clock s \<le> clock (snd (withRetry (ext a rs) n d s))"
  "calls s \<le> calls (snd (withRetry (ext a rs) n d s))"
  unfolding withRetry_def using withRetry_from_frame[of a rs n d 1 None s] by simp_all

lemma analyzeProducer_result:
  "\<exists>v s2. analyzeProducer env post s = (Inr v, s2)"
  by (auto simp: analyzeProducer_def split: prod.splits sum.splits)

lemma analyzeProducer_frame:
  "cache (snd (analyzeProducer env post s)) = cache s"
  "db (snd (analyzeProducer env post s)) = db s"
  "clock s \<le> clock (snd (analyzeProducer env post s))"
proof -
  let ?w = "withRetry (createChatCompletion env post) MAX_RETRIES RETRY_DELAY s"
  note f = withRetry_frame[where a = "Classify (ig_id post)" and rs = "chatReply env post"
      and n = MAX_RETRIES and d = RETRY_DELAY and s = s, folded createChatCompletion_def]
  obtain res s1 where w: "?w = (res, s1)" by (cases ?w)
  show "cache (snd (analyzeProducer env post s)) = cache s"
    using f(1) w by (cases res) (simp_all add: analyzeProducer_def)
  show "db (snd (analyzeProducer env post s)) = db s"
    using f(2) w by (cases res) (simp_all add: analyzeProducer_def)
  show "clock s \<le> clock (snd (analyzeProducer env post s))"
    using f(3) w by (cases res) (simp_all add: analyzeProducer_def)
qed

lemma analyzeProducer_first_action:
  "\<exists>rest. trace (snd (analyzeProducer env post s)) = trace s @ Classify (ig_id post) # rest"
proof -
  let ?w = "withRetry (createChatCompletion env post) MAX_RETRIES RETRY_DELAY s"
  have "1 \<le> MAX_RETRIES" by (simp add: MAX_RETRIES_def)
  from withRetry_first_action[OF this, of "Classify (ig_id post)" "chatReply env post" RETRY_DELAY s]
  obtain rest where r: "trace (snd ?w) = trace s @ Classify (ig_id post) # rest"
    unfolding createChatCompletion_def by blast
  obtain res s1 where w: "?w = (res, s1)" by (cases ?w)
  show ?thesis
    using r w by (cases res) (auto simp: analyzeProducer_def)
qed

lemma analyzeProducer_classified:
  "classified j (snd (analyzeProducer env post s))
     \<le> classified j s + (if j = ig_id post then MAX_RETRIES else 0)"
proof -
  let ?w = "withRetry (createChatCompletion env post) MAX_RETRIES RETRY_DELAY s"
  note c = withRetry_classified[where j = j and a = "Classify (ig_id post)" and rs = "chatReply env post"
      and n = MAX_RETRIES and d = RETRY_DELAY and s = s, folded createChatCompletion_def]
  obtain res s1 where w: "?w = (res, s1)" by (cases ?w)
  show ?thesis
    using c w by (cases res) (auto simp: analyzeProducer_def split: if_splits)
qed

lemma analyzePostWithOpenAI_hit:
  "fst (getCached (analysisKey (ig_id post)) s) = Some v \<Longrightarrow>
     analyzePostWithOpenAI env post s = (Inr v, snd (getCached (analysisKey (ig_id post)) s))"
  unfolding analyzePostWithOpenAI_def
  by (rule getCachedOrCompute_hit) (simp add: prod_eq_iff)

lemma analyzePostWithOpenAI_miss:
  assumes "fst (getCached (analysisKey (ig_id post)) s) = None"
    and "analyzeProducer env post (snd (getCached (analysisKey (ig_id post)) s)) = (Inr v, s2)"
  shows "analyzePostWithOpenAI env post s
         = (Inr v, setCached (analysisKey (ig_id post)) v OPENAI_ANALYSIS_CACHE_TTL s2)"
proof -
  have g: "getCached (analysisKey (ig_id post)) s = (None, snd (getCached (analysisKey (ig_id post)) s))"
    using assms(1) by (simp add: prod_eq_iff)
  show ?thesis
    unfolding analyzePostWithOpenAI_def getCachedOrCompute_def
    by (subst g) (simp add: assms(2))
qed

lemma analyzePostWithOpenAI_result:
  "\<exists>v s3. analyzePostWithOpenAI env post s = (Inr v, s3)"
proof (cases "fst (getCached (analysisKey (ig_id post)) s)")
  case None
  obtain v s2 where "analyzeProducer env post (snd (getCached (analysisKey (ig_id post)) s)) = (Inr v, s2)"
    using analyzeProducer_result by blast
  from analyzePostWithOpenAI_miss[OF None this] show ?thesis by blast
next
  case (Some v)
  from analyzePostWithOpenAI_hit[OF Some] show ?thesis by blast
qed

lemma analyzePostWithOpenAI_hit_trace:
  "fst (getCached (analysisKey (ig_id post)) s) = Some v \<Longrightarrow>
     trace (snd (analyzePostWithOpenAI env post s)) = trace s @ [CacheGet (analysisKey (ig_id post))]
     \<and> calls (snd (analyzePostWithOpenAI env post s)) = calls s"
  by (simp add: analyzePostWithOpenAI_hit getCached_frame)

lemma analyzePostWithOpenAI_miss_trace:
  assumes "fst (getCached (analysisKey (ig_id post)) s) = None"
  shows "\<exists>rest. trace (snd (analyzePostWithOpenAI env post s))
           = trace s @ [CacheGet (analysisKey (ig_id post)), Classify (ig_id post)] @ rest"
proof -
  let ?s1 = "snd (getCached (analysisKey (ig_id post)) s)"
  obtain v s2 where p: "analyzeProducer env post ?s1 = (Inr v, s2)"
    using analyzeProducer_result by blast
  obtain rest where "trace (snd (analyzeProducer env post ?s1)) = trace ?s1 @ Classify (ig_id post) # rest"
    using analyzeProducer_first_action by blast
  then show ?thesis
    unfolding analyzePostWithOpenAI_miss[OF assms p] using p by (simp add: getCached_frame)
qed

lemma classified_getCached [simp]: "classified j (snd (getCached key s)) = classified j s"
  by (simp add: classified_def getCached_frame)

lemma classified_setCached [simp]: "classified j (setCached key x ttl s) = classified j s"
  by (simp add: classified_def)

lemma classified_select [simp]: "classified j (snd (select_existing env pid s)) = classified j s"
  by (simp add: classified_def select_existing_frame)

lemma classified_processAnalysis [simp]:
  "classified j (snd (snd (processAnalysis env u post a (r, s)))) = classified j s"
  by (simp add: classified_def processAnalysis_trace)

lemma analyzePostWithOpenAI_classified:
  "classified j (snd (analyzePostWithOpenAI env post s))
     \<le> classified j s
       + (if j = ig_id post \<and> fst (getCached (analysisKey (ig_id post)) s) = None then MAX_RETRIES else 0)"
proof (cases "fst (getCached (analysisKey (ig_id post)) s)")
  case None
  let ?s1 = "snd (getCached (analysisKey (ig_id post)) s)"
  obtain v s2 where p: "analyzeProducer env post ?s1 = (Inr v, s2)"
    using analyzeProducer_result by blast
  have "classified j s2 \<le> classified j ?s1 + (if j = ig_id post then MAX_RETRIES else 0)"
    using analyzeProducer_classified[of j env post ?s1] p by simp
  then show ?thesis
    unfolding analyzePostWithOpenAI_miss[OF None p] using None by simp
next
  case (Some v)
  then show ?thesis by (simp add: analyzePostWithOpenAI_hit)
qed

lemma processPost_seen:
  "inRunSet post r \<Longrightarrow>
     processPost env u post (r, s) = (r, s\<lparr>trace := trace s @ [SeenCheck (ig_id post)]\<rparr>)"
  by (simp add: processPost_def inRunSet_def Let_def)

lemma processPost_stored:
  assumes "\<not> inRunSet post r" and "inStore env post s"
  shows "snd (processPost env u post (r, s))
         = snd (select_existing env (ig_id post) (s\<lparr>trace := trace s @ [SeenCheck (ig_id post)]\<rparr>))"
    and "analyzedPostIds (fst (processPost env u post (r, s))) = insert (ig_id post) (analyzedPostIds r)"
  using assms
  by (auto simp: processPost_def inRunSet_def inStore_def Let_def split: prod.splits option.splits)

lemma processPost_analyzed:
  assumes "\<not> inRunSet post r" and "\<not> inStore env post s"
    and "s1 = snd (select_existing env (ig_id post) (s\<lparr>trace := trace s @ [SeenCheck (ig_id post)]\<rparr>))"
    and "analyzePostWithOpenAI env post (snd (getCached (analysisKey (ig_id post)) s1)) = (Inr v, s3)"
    and "r1 = r\<lparr>analyzedPostIds := insert (ig_id post) (analyzedPostIds r)\<rparr>"
    and "r2 = (if inCache env post s then r1\<lparr>cacheHits := cacheHits r1 + 1\<rparr>
               else r1\<lparr>cacheMisses := cacheMisses r1 + 1\<rparr>)"
  shows "processPost env u post (r, s)
         = (fst (snd (processAnalysis env u post v (r2, s3))),
            delay 500 (snd (snd (processAnalysis env u post v (r2, s3)))))"
  using assms
  by (auto simp: processPost_def inRunSet_def inStore_def inCache_def Let_def
      split: prod.splits option.splits sum.splits)

lemma processPost_trace_cached:
  assumes "\<not> inRunSet post r" and "\<not> inStore env post s" and "inCache env post s"
  shows "\<exists>rest. trace (snd (processPost env u post (r, s)))
           = trace s @ [SeenCheck (ig_id post), StoreSelect (ig_id post), CacheGet (analysisKey (ig_id post))] @ rest
         \<and> (\<forall>j. Classify j \<notin> set rest)"
    and "classified j (snd (processPost env u post (r, s))) = classified j s"
proof -
  let ?key = "analysisKey (ig_id post)"
  define s1 where "s1 = snd (select_existing env (ig_id post) (s\<lparr>trace := trace s @ [SeenCheck (ig_id post)]\<rparr>))"
  let ?s2 = "snd (getCached ?key s1)"
  obtain v where v: "fst (getCached ?key s1) = Some v"
    using assms(3) unfolding inCache_def s1_def by auto
  have v2: "fst (getCached ?key ?s2) = Some v"
    using v by (simp add: getCached_again)
  define r1 where "r1 = r\<lparr>analyzedPostIds := insert (ig_id post) (analyzedPostIds r)\<rparr>"
  define r2 where "r2 = (if inCache env post s then r1\<lparr>cacheHits := cacheHits r1 + 1\<rparr>
               else r1\<lparr>cacheMisses := cacheMisses r1 + 1\<rparr>)"
  note pp = processPost_analyzed[OF assms(1,2) s1_def analyzePostWithOpenAI_hit[OF v2] r1_def r2_def]
  have t1: "trace s1 = trace s @ [SeenCheck (ig_id post), StoreSelect (ig_id post)]"
    by (simp add: s1_def select_existing_frame)
  show "\<exists>rest. trace (snd (processPost env u post (r, s)))
           = trace s @ [SeenCheck (ig_id post), StoreSelect (ig_id post), CacheGet ?key] @ rest
         \<and> (\<forall>j. Classify j \<notin> set rest)"
    unfolding pp by (simp add: processAnalysis_trace getCached_frame t1)
  show "classified j (snd (processPost env u post (r, s))) = classified j s"
    unfolding pp by (simp add: s1_def classified_def[of j "s\<lparr>trace := trace s @ [SeenCheck (ig_id post)]\<rparr>"] classified_def[of j s])
qed

lemma processPost_trace_fresh:
  assumes "\<not> inRunSet post r" and "\<not> inStore env post s" and "\<not> inCache env post s"
  shows "\<exists>rest. trace (snd (processPost env u post (r, s)))
           = trace s @ [SeenCheck (ig_id post), StoreSelect (ig_id post),
                        CacheGet (analysisKey (ig_id post)), CacheGet (analysisKey (ig_id post)),
                        Classify (ig_id post)] @ rest"
    and "classified j (snd (processPost env u post (r, s)))
           \<le> classified j s + (if j = ig_id post then MAX_RETRIES else 0)"
proof -
  let ?key = "analysisKey (ig_id post)"
  define s1 where "s1 = snd (select_existing env (ig_id post) (s\<lparr>trace := trace s @ [SeenCheck (ig_id post)]\<rparr>))"
  let ?s2 = "snd (getCached ?key s1)"
  have v: "fst (getCached ?key s1) = None"
    using assms(3) unfolding inCache_def s1_def by auto
  have v2: "fst (getCached ?key ?s2) = None"
    using v by (simp add: getCached_again)
  obtain a s3 where an: "analyzePostWithOpenAI env post ?s2 = (Inr a, s3)"
    using analyzePostWithOpenAI_result by blast
  define r1 where "r1 = r\<lparr>analyzedPostIds := insert (ig_id post) (analyzedPostIds r)\<rparr>"
  define r2 where "r2 = (if inCache env post s then r1\<lparr>cacheHits := cacheHits r1 + 1\<rparr>
               else r1\<lparr>cacheMisses := cacheMisses r1 + 1\<rparr>)"
  note pp = processPost_analyzed[OF assms(1,2) s1_def an r1_def r2_def]
  have t1: "trace s1 = trace s @ [SeenCheck (ig_id post), StoreSelect (ig_id post)]"
    by (simp add: s1_def select_existing_frame)
  obtain rest where "trace (snd (analyzePostWithOpenAI env post ?s2))
           = trace ?s2 @ [CacheGet ?key, Classify (ig_id post)] @ rest"
    using analyzePostWithOpenAI_miss_trace[OF v2] by blast
  then have t3: "trace s3 = trace s @ [SeenCheck (ig_id post), StoreSelect (ig_id post),
                        CacheGet ?key, CacheGet ?key, Classify (ig_id post)] @ rest"
    using an by (simp add: getCached_frame t1)
  show "\<exists>rest. trace (snd (processPost env u post (r, s)))
           = trace s @ [SeenCheck (ig_id post), StoreSelect (ig_id post),
                        CacheGet ?key, CacheGet ?key, Classify (ig_id post)] @ rest"
    unfolding pp by (simp add: processAnalysis_trace t3)
  have c: "classified j (snd (analyzePostWithOpenAI env post ?s2))
             \<le> classified j ?s2
               + (if j = ig_id post \<and> fst (getCached ?key ?s2) = None then MAX_RETRIES else 0)"
    by (rule analyzePostWithOpenAI_classified)
  have "classified j s3 \<le> classified j ?s2 + (if j = ig_id post then MAX_RETRIES else 0)"
    using c unfolding v2 an snd_conv by simp
  moreover have "classified j ?s2 = classified j s"
    by (simp add: s1_def classified_def[of j "s\<lparr>trace := trace s @ [SeenCheck (ig_id post)]\<rparr>"] classified_def[of j s])
  ultimately show "classified j (snd (processPost env u post (r, s)))
           \<le> classified j s + (if j = ig_id post then MAX_RETRIES else 0)"
    unfolding pp by simp
qed

lemma processPost_classified:
  "classified j (snd (processPost env u post (r, s)))
     \<le> classified j s
       + (if j = ig_id post \<and> \<not> inRunSet post r \<and> \<not> inStore env post s \<and> \<not> inCache env post s
          then MAX_RETRIES else 0)"
proof (cases "inRunSet post r")
  case True
  then show ?thesis by (simp add: processPost_seen classified_def)
next
  case seen: False
  show ?thesis
  proof (cases "inStore env post s")
    case True
    show ?thesis
      unfolding processPost_stored(1)[OF seen True]
      by (simp add: classified_def[of j "s\<lparr>trace := trace s @ [SeenCheck (ig_id post)]\<rparr>"] classified_def[of j s])
  next
    case stored: False
    show ?thesis
    proof (cases "inCache env post s")
      case True
      then show ?thesis using processPost_trace_cached(2)[OF seen stored True] by simp
    next
      case False
      then show ?thesis using processPost_trace_fresh(2)[OF seen stored False, of j u] seen stored by simp
    qed
  qed
qed

lemma processPost_marks:
  "ig_id post \<in> analyzedPostIds (fst (processPost env u post (r, s)))
   \<and> analyzedPostIds (fst (processPost env u post (r, s))) = insert (ig_id post) (analyzedPostIds r)"
proof (cases "inRunSet post r")
  case True
  then show ?thesis by (auto simp: processPost_seen inRunSet_def)
next
  case seen: False
  show ?thesis
  proof (cases "inStore env post s")
    case True
    then show ?thesis using processPost_stored(2)[OF seen True] by simp
  next
    case stored: False
    define s1 where "s1 = snd (select_existing env (ig_id post) (s\<lparr>trace := trace s @ [SeenCheck (ig_id post)]\<rparr>))"
    obtain a s3 where an: "analyzePostWithOpenAI env post (snd (getCached (analysisKey (ig_id post)) s1)) = (Inr a, s3)"
      using analyzePostWithOpenAI_result by blast
    define r1 where "r1 = r\<lparr>analyzedPostIds := insert (ig_id post) (analyzedPostIds r)\<rparr>"
    define r2 where "r2 = (if inCache env post s then r1\<lparr>cacheHits := cacheHits r1 + 1\<rparr>
               else r1\<lparr>cacheMisses := cacheMisses r1 + 1\<rparr>)"
    note pp = processPost_analyzed[OF seen stored s1_def an r1_def r2_def]
    show ?thesis
      unfolding pp by (simp add: processAnalysis_seen r2_def r1_def)
  qed
qed

lemma processPost_potential:
  "potential j (processPost env u post rs) \<le> potential j rs"
proof -
  obtain r s where rs: "rs = (r, s)" by (cases rs)
  note c = processPost_classified[of j env u post r s]
  note m = processPost_marks[of post env u r s]
  show ?thesis
  proof (cases "j = ig_id post")
    case True
    show ?thesis
      using c m True unfolding rs potential_def inRunSet_def by (auto split: if_splits)
  next
    case False
    have "(j \<in> analyzedPostIds (fst (processPost env u post (r, s)))) = (j \<in> analyzedPostIds r)"
      using m False by auto
    then show ?thesis
      using c False unfolding rs potential_def by simp
  qed
qed

lemma processPosts_potential:
  "potential j (processPosts env u ps rs) \<le> potential j rs"
proof (induction ps arbitrary: rs)
  case Nil
  show ?case by simp
next
  case (Cons post ps)
  have "potential j (processPosts env u ps (processPost env u post rs))
          \<le> potential j (processPost env u post rs)"
    by (rule Cons.IH)
  also have "\<dots> \<le> potential j rs" by (rule processPost_potential)
  finally show ?case by simp
qed

lemma processAccount_potential:
  "potential j (processAccount env n u rs) \<le> potential j rs"
proof -
  obtain r s where rs: "rs = (r, s)" by (cases rs)
  let ?s1 = "delay (2000 + jitter env (calls s)) s"
  let ?w = "withRetry (ext (Fetch u) (scraper_getPosts env u n)) MAX_RETRIES RETRY_DELAY ?s1"
  obtain res s2 where w: "?w = (res, s2)" by (cases ?w)
  have "classified j (snd ?w) \<le> classified j ?s1 + (if Fetch u = Classify j then MAX_RETRIES else 0)"
    by (rule withRetry_classified)
  then have c2: "classified j s2 \<le> classified j s" using w by simp
  have base: "potential j (r', s2) \<le> potential j (r, s)" if "analyzedPostIds r' = analyzedPostIds r" for r'
    using c2 that by (simp add: potential_def)
  show ?thesis
  proof (cases res)
    case (Inl e)
    then show ?thesis using w base[of r] by (simp add: rs processAccount_def)
  next
    case (Inr results)
    show ?thesis
    proof (cases "posts results")
      case None
      then show ?thesis using w Inr base[of r] by (simp add: rs processAccount_def)
    next
      case (Some ps)
      show ?thesis
      proof (cases "\<not> success results \<or> ps = []")
        case True
        then show ?thesis using w Inr Some base[of r] by (auto simp: rs processAccount_def)
      next
        case False
        let ?r' = "r\<lparr>totalProcessed := totalProcessed r + length ps\<rparr>"
        have "processAccount env n u rs = processPosts env u ps (?r', s2)"
          using w Inr Some False by (simp add: rs processAccount_def)
        moreover have "potential j (processPosts env u ps (?r', s2)) \<le> potential j (?r', s2)"
          by (rule processPosts_potential)
        moreover have "potential j (?r', s2) \<le> potential j (r, s)"
          by (rule base) simp
        ultimately show ?thesis using rs by simp
      qed
    qed
  qed
qed

lemma processAccounts_potential:
  "potential j (processAccounts env n us rs) \<le> potential j rs"
proof (induction us arbitrary: rs)
  case Nil
  show ?case by simp
next
  case (Cons u us)
  have "potential j (processAccounts env n us (processAccount env n u rs))
          \<le> potential j (processAccount env n u rs)"
    by (rule Cons.IH)
  also have "\<dots> \<le> potential j rs" by (rule processAccount_potential)
  finally show ?case by simp
qed

lemma run_classified:
  "classified j (snd (scrapeAndDetectEvents env accounts n s)) \<le> classified j s + MAX_RETRIES"
proof -
  have "classified j (snd (scrapeAndDetectEvents env accounts n s))
          \<le> potential j (scrapeAndDetectEvents env accounts n s)"
    by (simp add: potential_def)
  also have "\<dots> \<le> potential j (newRun, s)"
    unfolding scrapeAndDetectEvents_def by (rule processAccounts_potential)
  also have "\<dots> = classified j s + MAX_RETRIES"
    by (simp add: potential_def newRun_def)
  finally show ?thesis .
qed

lemmas detector_defs = scrapeAndDetectEvents_def processAccount_def processPost_def processAnalysis_def
      analyzePostWithOpenAI_def analyzeProducer_def createChatCompletion_def chatReply_def readCompletion_def
      getCachedOrCompute_def getCached_def setCached_def cache_get_def cache_set_def
      select_existing_def select_single_def storeEventInSupabase_def upsert_row_def eventPostOf_def postDateOf_def validTime_def
      withRetry_def ext_def delay_def
      newRun_def emptyCache_def analysisKey_def fallback_def
      MAX_RETRIES_def RETRY_DELAY_def MIN_CONFIDENCE_THRESHOLD_def OPENAI_ANALYSIS_CACHE_TTL_def
      jsonMatch_def orText_def orElse_def truthy_def expired_def Let_def

lemma withRetry_from_now:
  "attempt \<le> retries \<Longrightarrow> fn s = (Inr x, s1) \<Longrightarrow>
     withRetry_from fn retries d attempt le s = (Inr x, s1)"
  by (subst withRetry_from.simps) simp

lemma withRetry_from_again:
  "attempt \<le> retries \<Longrightarrow> fn s = (Inl e, s1) \<Longrightarrow>
     withRetry_from fn retries d attempt le s
     = withRetry_from fn retries d (Suc attempt) (Some (toError e))
         (if attempt < retries then delay (d * 2 ^ (attempt - 1)) s1 else s1)"
  by (subst withRetry_from.simps) simp

lemma notEvent_simps [simp]: "isEvent notEvent = False" "confidenceScore notEvent = 10"
  by (simp_all add: notEvent_def)

lemma afterFirstRun_eq:
  "afterFirstRun =
     \<lparr>clock = 4630, calls = 3,
      trace = [Wait 3000, Fetch ''acct'', SeenCheck ''p1'', StoreSelect ''p1'',
               CacheGet ''post_analysis:p1'', CacheGet ''post_analysis:p1'', Classify ''p1'', Wait 500],
      cache = \<lparr>entries = [''post_analysis:p1'' \<mapsto> \<lparr>expiresAt = 604804130, entryValue = notEvent\<rparr>],
                hits = 0, misses = 2\<rparr>,
      db = []\<rparr>"
  by (simp add: afterFirstRun_def detector_defs withRetry_from_now world_def boot_def p1_def)







lemma analyzeProducer_exhausted:
  assumes "\<forall>i<MAX_RETRIES. isl (snd (chatReply env post (calls s + i)))"
  shows "fst (analyzeProducer env post s) = Inr fallback"
proof -
  let ?w = "withRetry (createChatCompletion env post) MAX_RETRIES RETRY_DELAY s"
  have all: "\<forall>i\<le>2. isl (snd (chatReply env post (calls s + i)))"
    using assms by (simp add: MAX_RETRIES_def)
  have n: "Suc 2 = MAX_RETRIES" by (simp add: MAX_RETRIES_def)
  note x = withRetry_exhaust(1)[where rs = "chatReply env post" and s = s and j = 2
      and a = "Classify (ig_id post)" and d = RETRY_DELAY, OF all n, folded createChatCompletion_def]
  obtain res s1 where w: "?w = (res, s1)" by (cases ?w)
  with x obtain e where "res = Inl e" by auto
  then show ?thesis using w by (simp add: analyzeProducer_def)
qed

lemma analyzeProducer_completion:
  assumes "j < MAX_RETRIES"
    and "\<forall>i<j. isl (snd (chatReply env post (calls s + i)))"
    and "snd (chatReply env post (calls s + j)) = Inr c"
  shows "fst (analyzeProducer env post s) = Inr (readCompletion env c)"
proof -
  let ?w = "withRetry (createChatCompletion env post) MAX_RETRIES RETRY_DELAY s"
  have n: "Suc j \<le> MAX_RETRIES" using assms(1) by simp
  note x = withRetry_success(1)[where rs = "chatReply env post" and s = s and j = j and x = c
      and a = "Classify (ig_id post)" and d = RETRY_DELAY, OF assms(2) assms(3) n,
      folded createChatCompletion_def]
  obtain res s1 where w: "?w = (res, s1)" by (cases ?w)
  with x have "res = Inr c" by simp
  then show ?thesis using w by (simp add: analyzeProducer_def)
qed

lemma readCompletion_unusable: "unusable env c \<Longrightarrow> readCompletion env c = fallback"
  by (auto simp: unusable_def readCompletion_def split: option.splits list.splits)

lemma getCached_live:
  assumes "entries (cache s) key = Some \<lparr>expiresAt = t, entryValue = x\<rparr>"
    and "clock s \<le> t"
  shows "fst (getCached key s) = Some x"
  using assms by (simp add: getCached_def cache_get_def expired_def)

section \<open>Properties of the followings statistics\<close>

lemma getCached_absent:
  "entries (cache s) key = None \<Longrightarrow>
     getCached key s
     = (None, s\<lparr>trace := trace s @ [CacheGet key], cache := (cache s)\<lparr>misses := misses (cache s) + 1\<rparr>\<rparr>)"
  by (simp add: getCached_def cache_get_def)

lemma getDifferenceFromDate_absent:
  assumes "entries (cache s) (historyKey cal a date) = None"
  shows "fst (getDifferenceFromDate env cal a date s)
           = Inr (if snd (supabase_up env (calls s)) then nearestCount a date (db s) else None)"
    and "db (snd (getDifferenceFromDate env cal a date s)) = db s"
    and "calls (snd (getDifferenceFromDate env cal a date s)) = Suc (calls s)"
    and "k \<noteq> historyKey cal a date \<Longrightarrow>
           entries (cache (snd (getDifferenceFromDate env cal a date s))) k = entries (cache s) k"
  using assms
  by (simp_all add: getDifferenceFromDate_def getCachedOrCompute_def getCached_absent
      historyProducer_def setCached_def cache_set_def)

lemma currentFollowings_frame:
  "cache (snd (currentFollowings env a s)) = cache s"
  "db (snd (currentFollowings env a s)) = db s"
  "calls (snd (currentFollowings env a s)) = Suc (calls s)"
  by (simp_all add: currentFollowings_def)

lemmas stats_defs = computeFollowingsStats_def currentFollowings_def historicalResults_def
  getDifferenceFromDate_def getCachedOrCompute_def getCached_def cache_get_def setCached_def
  cache_set_def historyProducer_def nearestCount_def history_rows_def historyKey_def orCurrent_def
  windowKeys_def dayBoundary_def weekBoundary_def monthBoundary_def
  emptyCache_def HISTORY_CACHE_TTL_def expired_def


subsection \<open>What the deduplication layers read\<close>

lemma single_row_iff:
  "distinct (map post_id rows) \<Longrightarrow>
     (\<exists>row. filter (\<lambda>row. post_id row = i) rows = [row]) = (i \<in> post_id ` set rows)"
proof (induction rows)
  case Nil
  then show ?case by simp
next
  case (Cons a rows)
  show ?case
  proof (cases "post_id a = i")
    case True
    with Cons.prems have "i \<notin> post_id ` set rows" by auto
    then have "filter (\<lambda>row. post_id row = i) rows = []"
      by (auto simp: filter_empty_conv)
    with True show ?thesis by simp
  next
    case False
    with Cons show ?thesis by auto
  qed
qed

lemma inStore_iff:
  "inStore env post s
     = (snd (supabase_up env (calls s))
        \<and> (\<exists>row. filter (\<lambda>row. post_id row = ig_id post) (db s) = [row]))"
  by (auto simp: inStore_def select_existing_def select_single_def split: list.splits)

lemma inCache_iff:
  "inCache env post s
     = (\<exists>e. entries (cache s) (analysisKey (ig_id post)) = Some e
            \<and> \<not> expired (clock s + fst (supabase_up env (calls s))) e)"
  by (auto simp: inCache_def select_existing_def getCached_def cache_get_def
      split: option.splits)

subsection \<open>The date of a post\<close>






subsection \<open>The fallback verdict\<close>

text \<open>
  When every attempt of the classification request fails, or a completion arrives from
  which no verdict can be read, analyzePostWithOpenAI returns the fallback verdict and
  leaves it in the cache of the process for seven days; a later call in a state that
  still holds the entry returns it without calling the service.
\<close>

lemma analyzePostWithOpenAI_fallback:
  assumes "fst (getCached (analysisKey (ig_id post)) s) = None"
    and "(\<forall>i<MAX_RETRIES. isl (snd (chatReply env post (calls s + i))))
         \<or> (\<exists>j<MAX_RETRIES. (\<forall>i<j. isl (snd (chatReply env post (calls s + i))))
               \<and> (\<exists>c. snd (chatReply env post (calls s + j)) = Inr c \<and> unusable env c))"
  shows "fst (analyzePostWithOpenAI env post s) = Inr fallback
       \<and> analysisKey (ig_id post) = ''post_analysis:'' @ ig_id post
       \<and> entries (cache (snd (analyzePostWithOpenAI env post s))) (analysisKey (ig_id post))
           = Some \<lparr>expiresAt = clock (snd (analyzePostWithOpenAI env post s)) + 7 * 24 * 60 * 60 * 1000,
                   entryValue = fallback\<rparr>
       \<and> (\<forall>env2 s2.
             entries (cache s2) (analysisKey (ig_id post))
               = entries (cache (snd (analyzePostWithOpenAI env post s))) (analysisKey (ig_id post))
             \<and> clock s2 \<le> clock (snd (analyzePostWithOpenAI env post s)) + 7 * 24 * 60 * 60 * 1000
             \<longrightarrow> fst (analyzePostWithOpenAI env2 post s2) = Inr fallback
               \<and> calls (snd (analyzePostWithOpenAI env2 post s2)) = calls s2
               \<and> classified (ig_id post) (snd (analyzePostWithOpenAI env2 post s2))
                   = classified (ig_id post) s2)"
proof -
  let ?key = "analysisKey (ig_id post)"
  let ?s1 = "snd (getCached ?key s)"
  have c1: "calls ?s1 = calls s" by (simp add: getCached_frame)
  have fb: "fst (analyzeProducer env post ?s1) = Inr fallback"
    using assms(2)
  proof
    assume "\<forall>i<MAX_RETRIES. isl (snd (chatReply env post (calls s + i)))"
    then show ?thesis using analyzeProducer_exhausted[of env post ?s1] by (simp add: c1)
  next
    assume "\<exists>j<MAX_RETRIES. (\<forall>i<j. isl (snd (chatReply env post (calls s + i))))
               \<and> (\<exists>c. snd (chatReply env post (calls s + j)) = Inr c \<and> unusable env c)"
    then obtain j c where j: "j < MAX_RETRIES"
      and f: "\<forall>i<j. isl (snd (chatReply env post (calls ?s1 + i)))"
      and c: "snd (chatReply env post (calls ?s1 + j)) = Inr c" and u: "unusable env c"
      unfolding c1 by blast
    show ?thesis
      using analyzeProducer_completion[OF j f c] readCompletion_unusable[OF u] by simp
  qed
  then obtain s2 where p: "analyzeProducer env post ?s1 = (Inr fallback, s2)"
    by (cases "analyzeProducer env post ?s1") auto
  note r = analyzePostWithOpenAI_miss[OF assms(1) p]
  have e: "entries (cache (setCached ?key fallback OPENAI_ANALYSIS_CACHE_TTL s2)) ?key
      = Some \<lparr>expiresAt = clock (setCached ?key fallback OPENAI_ANALYSIS_CACHE_TTL s2)
                            + 7 * 24 * 60 * 60 * 1000, entryValue = fallback\<rparr>"
    by (simp add: setCached_def cache_set_def OPENAI_ANALYSIS_CACHE_TTL_def)
  have later: "fst (analyzePostWithOpenAI env2 post s3) = Inr fallback
               \<and> calls (snd (analyzePostWithOpenAI env2 post s3)) = calls s3
               \<and> classified (ig_id post) (snd (analyzePostWithOpenAI env2 post s3))
                   = classified (ig_id post) s3"
    if "entries (cache s3) ?key
               = entries (cache (setCached ?key fallback OPENAI_ANALYSIS_CACHE_TTL s2)) ?key"
      and "clock s3 \<le> clock (setCached ?key fallback OPENAI_ANALYSIS_CACHE_TTL s2) + 7 * 24 * 60 * 60 * 1000"
    for env2 s3
  proof -
    have "fst (getCached ?key s3) = Some fallback"
      using getCached_live[OF that(1)[unfolded e] that(2)] .
    from analyzePostWithOpenAI_hit[OF this, of env2] show ?thesis
      by (simp add: getCached_frame)
  qed
  have k: "analysisKey (ig_id post) = ''post_analysis:'' @ ig_id post"
    by (simp add: analysisKey_def)
  show ?thesis
    unfolding r fst_conv snd_conv using e later k by blast
qed

lemma afterOutage_eq:
  "afterOutage =
     \<lparr>clock = 34030, calls = 5,
      trace = [Wait 3000, Fetch ''acct'', SeenCheck ''p1'', StoreSelect ''p1'',
               CacheGet ''post_analysis:p1'', CacheGet ''post_analysis:p1'',
               Classify ''p1'', Wait 5000, Classify ''p1'', Wait 10000, Classify ''p1'',
               Wait 15000, Wait 500],
      cache = \<lparr>entries = [''post_analysis:p1'' \<mapsto> \<lparr>expiresAt = 604833530, entryValue = fallback\<rparr>],
                hits = 0, misses = 2\<rparr>,
      db = []\<rparr>"
  by (simp add: afterOutage_def executeScript_def newProcess_def detector_defs
      withRetry_from_now withRetry_from_again withRetry_from_stop outage_def world_def boot_def p1_def)
section \<open>The claims\<close>

text \<open>
  Claim C1, as amended. Within one pipeline run the classification service is called
  for an item id at most \<open>MAX_RETRIES = 3\<close> times, the attempts of the one request
  made when the id is first met. No step of any run calls it for an id that is in the
  run-local set, that the store query finds among the stored events, or whose verdict
  the cache lookup finds unexpired; every step leaves the id it handled in the
  run-local set.
\<close>

theorem classification_guarded:
  "classified j (snd (processPost env u post (r, s)))
     \<le> classified j s
       + (if j = ig_id post \<and> \<not> inRunSet post r \<and> \<not> inStore env post s \<and> \<not> inCache env post s
          then MAX_RETRIES else 0)
   \<and> inRunSet post (fst (processPost env u post (r, s)))
   \<and> classified j (snd (scrapeAndDetectEvents env accounts n s)) \<le> classified j s + MAX_RETRIES
   \<and> MAX_RETRIES = 3"
  using processPost_classified[of j env u post r s] processPost_marks[of post env u r s]
    run_classified[of j env accounts n s]
  by (simp add: inRunSet_def MAX_RETRIES_def)

text \<open>
  The claim as stated (at most one call per id over the lifetime of the system) fails:
  a post that was judged not to be an event is not stored, its cached verdict expires
  after seven days, and a run of the same process eight days later calls the service
  for it again. Within a single run, a request that fails is repeated: during an outage
  of the service the one post is sent three times.
\<close>

theorem reclassified_after_expiry:
  "classified ''p1'' afterFirstRun = 1
   \<and> classified ''p1'' (snd (scrapeAndDetectEvents world [''acct''] 5 eightDaysLater)) = 2
   \<and> classified ''p1'' (snd (scrapeAndDetectEvents outage [''acct''] 5 boot)) = 3"
proof -
  have a: "classified ''p1'' afterFirstRun = 1"
    by (simp add: afterFirstRun_eq classified_def)
  have b: "classified ''p1'' (snd (scrapeAndDetectEvents world [''acct''] 5 eightDaysLater)) = 2"
    by (simp add: eightDaysLater_def afterFirstRun_eq classified_def detector_defs withRetry_from_now
        world_def p1_def)
  have c: "classified ''p1'' (snd (scrapeAndDetectEvents outage [''acct''] 5 boot)) = 3"
    by (simp add: classified_def detector_defs withRetry_from_now withRetry_from_again
        withRetry_from_stop outage_def world_def boot_def p1_def)
  show ?thesis using a b c by simp
qed

text \<open>
  Claim C2. For every item reaching the pipeline the deduplication layers are consulted
  in this order: the run-local set of ids already seen, the stored events, the cache of
  verdicts. A positive answer of a layer skips all later layers, and the classification
  service is called only when all three report the item as unseen. The actions of the
  loop body on a post are: the check of the set alone when the set has the id; the check
  and the store query alone when the store has it; the check, the query and the cache
  lookup, followed by no classification call, when the cache has a verdict; and when
  none has it, the check, the query, the cache lookup (made once for the run's
  counters and once by the cache wrapper), and then the classification call.

  What each layer reports is read from the state: the set has the id when the id is a
  member of \<open>analyzedPostIds\<close>; the store has it when the query succeeds and the table
  holds exactly one row of that id (in a table without duplicate ids: when the id is
  among the ids of its rows), so a failed query reads as unseen; the cache has it when
  it holds an entry under the key of the post that has not expired at the moment of the
  lookup, which is the moment the store query returns.
\<close>

theorem dedup_layers_in_order:
  "(inRunSet post r \<longrightarrow>
      trace (snd (processPost env u post (r, s))) = trace s @ [SeenCheck (ig_id post)])
   \<and> (\<not> inRunSet post r \<and> inStore env post s \<longrightarrow>
      trace (snd (processPost env u post (r, s)))
        = trace s @ [SeenCheck (ig_id post), StoreSelect (ig_id post)])
   \<and> (\<not> inRunSet post r \<and> \<not> inStore env post s \<and> inCache env post s \<longrightarrow>
      (\<exists>rest. trace (snd (processPost env u post (r, s)))
                 = trace s @ [SeenCheck (ig_id post), StoreSelect (ig_id post),
                              CacheGet (analysisKey (ig_id post))] @ rest
              \<and> (\<forall>j. Classify j \<notin> set rest)))
   \<and> (\<not> inRunSet post r \<and> \<not> inStore env post s \<and> \<not> inCache env post s \<longrightarrow>
      (\<exists>rest. trace (snd (processPost env u post (r, s)))
                 = trace s @ [SeenCheck (ig_id post), StoreSelect (ig_id post),
                              CacheGet (analysisKey (ig_id post)), CacheGet (analysisKey (ig_id post)),
                              Classify (ig_id post)] @ rest))
   \<and> inRunSet post r = (ig_id post \<in> analyzedPostIds r)
   \<and> inStore env post s
       = (snd (supabase_up env (calls s))
          \<and> (\<exists>row. filter (\<lambda>row. post_id row = ig_id post) (db s) = [row]))
   \<and> (distinct (map post_id (db s)) \<longrightarrow>
        inStore env post s
          = (snd (supabase_up env (calls s)) \<and> ig_id post \<in> post_id ` set (db s)))
   \<and> inCache env post s
       = (\<exists>e. entries (cache s) (analysisKey (ig_id post)) = Some e
              \<and> \<not> (expiresAt e \<noteq> 0
                    \<and> expiresAt e < clock s + fst (supabase_up env (calls s))))"
proof (intro conjI impI)
  assume "inRunSet post r"
  then show "trace (snd (processPost env u post (r, s))) = trace s @ [SeenCheck (ig_id post)]"
    by (simp add: processPost_seen)
next
  assume "\<not> inRunSet post r \<and> inStore env post s"
  then show "trace (snd (processPost env u post (r, s)))
        = trace s @ [SeenCheck (ig_id post), StoreSelect (ig_id post)]"
    by (simp add: processPost_stored(1) select_existing_frame)
next
  assume "\<not> inRunSet post r \<and> \<not> inStore env post s \<and> inCache env post s"
  then show "\<exists>rest. trace (snd (processPost env u post (r, s)))
                 = trace s @ [SeenCheck (ig_id post), StoreSelect (ig_id post),
                              CacheGet (analysisKey (ig_id post))] @ rest
              \<and> (\<forall>j. Classify j \<notin> set rest)"
    using processPost_trace_cached(1) by blast
next
  assume "\<not> inRunSet post r \<and> \<not> inStore env post s \<and> \<not> inCache env post s"
  then show "\<exists>rest. trace (snd (processPost env u post (r, s)))
                 = trace s @ [SeenCheck (ig_id post), StoreSelect (ig_id post),
                              CacheGet (analysisKey (ig_id post)), CacheGet (analysisKey (ig_id post)),
                              Classify (ig_id post)] @ rest"
    using processPost_trace_fresh(1) by blast
next
  show "inRunSet post r = (ig_id post \<in> analyzedPostIds r)"
    by (simp add: inRunSet_def)
next
  show "inStore env post s
       = (snd (supabase_up env (calls s))
          \<and> (\<exists>row. filter (\<lambda>row. post_id row = ig_id post) (db s) = [row]))"
    by (rule inStore_iff)
next
  assume "distinct (map post_id (db s))"
  then show "inStore env post s
          = (snd (supabase_up env (calls s)) \<and> ig_id post \<in> post_id ` set (db s))"
    by (simp add: inStore_iff single_row_iff)
next
  show "inCache env post s
       = (\<exists>e. entries (cache s) (analysisKey (ig_id post)) = Some e
              \<and> \<not> (expiresAt e \<noteq> 0
                    \<and> expiresAt e < clock s + fst (supabase_up env (calls s))))"
    by (simp add: inCache_iff expired_def)
qed

theorem dedup_layers_in_order_witness:
  "\<not> inRunSet p1 newRun \<and> \<not> inStore world p1 boot \<and> \<not> inCache world p1 boot
   \<and> take 5 (trace (snd (processPost world ''acct'' p1 (newRun, boot))))
       = [SeenCheck ''p1'', StoreSelect ''p1'', CacheGet ''post_analysis:p1'',
          CacheGet ''post_analysis:p1'', Classify ''p1'']
   \<and> inRunSet p1 (newRun\<lparr>analyzedPostIds := {''p1''}\<rparr>)
   \<and> trace (snd (processPost world ''acct'' p1 (newRun\<lparr>analyzedPostIds := {''p1''}\<rparr>, boot)))
       = [SeenCheck ''p1'']
   \<and> inStore world p1 archived
   \<and> trace (snd (processPost world ''acct'' p1 (newRun, archived)))
       = [SeenCheck ''p1'', StoreSelect ''p1'']
   \<and> \<not> inStore storeDown p1 archived
   \<and> \<not> inStore world p1 afterFirstRun \<and> inCache world p1 afterFirstRun
   \<and> take 3 (drop (length (trace afterFirstRun))
               (trace (snd (processPost world ''acct'' p1 (newRun, afterFirstRun)))))
       = [SeenCheck ''p1'', StoreSelect ''p1'', CacheGet ''post_analysis:p1'']
   \<and> Classify ''p1'' \<notin> set (drop (length (trace afterFirstRun))
               (trace (snd (processPost world ''acct'' p1 (newRun, afterFirstRun)))))"
proof -
  note fresh = dedup_layers_in_order[of p1 newRun world "''acct''" boot]
  note seen = dedup_layers_in_order[of p1 "newRun\<lparr>analyzedPostIds := {''p1''}\<rparr>" world "''acct''" boot]
  note stored = dedup_layers_in_order[of p1 newRun world "''acct''" archived]
  note cached = dedup_layers_in_order[of p1 newRun world "''acct''" afterFirstRun]
  have i: "ig_id p1 = ''p1''" by (simp add: p1_def)
  have k: "analysisKey ''p1'' = ''post_analysis:p1''" by (simp add: analysisKey_def)
  have t0: "trace boot = []" "trace archived = []" by (simp_all add: boot_def archived_def)
  have up: "snd (supabase_up world n)" "fst (supabase_up world n) = 30" for n
    by (simp_all add: world_def)
  have l1: "\<not> inRunSet p1 newRun"
    using fresh by (simp add: newRun_def i)
  have l2: "\<not> inStore world p1 boot"
    using fresh by (simp add: boot_def)
  have l3: "\<not> inCache world p1 boot"
    using fresh by (simp add: boot_def emptyCache_def)
  have l4: "inRunSet p1 (newRun\<lparr>analyzedPostIds := {''p1''}\<rparr>)"
    using seen by (simp add: i)
  have l5: "inStore world p1 archived"
    using stored by (simp add: archived_def boot_def eventPostOf_def i up)
  have l8: "\<not> inStore storeDown p1 archived"
    using dedup_layers_in_order[of p1 newRun storeDown "''acct''" archived]
    by (simp add: storeDown_def)
  have l6: "\<not> inStore world p1 afterFirstRun"
    using cached by (simp add: afterFirstRun_eq)
  have l7: "inCache world p1 afterFirstRun"
    using cached by (simp add: afterFirstRun_eq i k up)
  from fresh l1 l2 l3 obtain rest where
    "trace (snd (processPost world ''acct'' p1 (newRun, boot)))
       = trace boot @ [SeenCheck (ig_id p1), StoreSelect (ig_id p1),
                       CacheGet (analysisKey (ig_id p1)), CacheGet (analysisKey (ig_id p1)),
                       Classify (ig_id p1)] @ rest"
    by blast
  then have a: "take 5 (trace (snd (processPost world ''acct'' p1 (newRun, boot))))
       = [SeenCheck ''p1'', StoreSelect ''p1'', CacheGet ''post_analysis:p1'',
          CacheGet ''post_analysis:p1'', Classify ''p1'']"
    by (simp add: t0 i k)
  from seen l4 have b: "trace (snd (processPost world ''acct'' p1 (newRun\<lparr>analyzedPostIds := {''p1''}\<rparr>, boot)))
       = [SeenCheck ''p1'']"
    by (simp add: t0 i)
  from stored l1 l5 have c: "trace (snd (processPost world ''acct'' p1 (newRun, archived)))
       = [SeenCheck ''p1'', StoreSelect ''p1'']"
    by (simp add: t0 i)
  from cached l1 l6 l7 obtain rest where
    r: "trace (snd (processPost world ''acct'' p1 (newRun, afterFirstRun)))
       = trace afterFirstRun @ [SeenCheck (ig_id p1), StoreSelect (ig_id p1),
                                CacheGet (analysisKey (ig_id p1))] @ rest"
    and n: "\<forall>j. Classify j \<notin> set rest"
    by blast
  have d: "take 3 (drop (length (trace afterFirstRun))
               (trace (snd (processPost world ''acct'' p1 (newRun, afterFirstRun)))))
       = [SeenCheck ''p1'', StoreSelect ''p1'', CacheGet ''post_analysis:p1'']"
    unfolding r by (simp add: i k)
  have e: "Classify ''p1'' \<notin> set (drop (length (trace afterFirstRun))
               (trace (snd (processPost world ''acct'' p1 (newRun, afterFirstRun)))))"
    unfolding r using n by (simp add: i k)
  show ?thesis using l1 l2 l3 l4 l5 l6 l7 l8 a b c d e by blast
qed

text \<open>
  Claim C3. For every operation and every maxAttempts \<open>n \<ge> 1\<close>: if the operation
  fails on its first \<open>k - 1\<close> calls and succeeds on call \<open>k \<le> n\<close>, withRetry
  returns that success value and the operation was invoked exactly \<open>k\<close> times; if it
  fails on all of its first \<open>n\<close> calls, withRetry makes exactly \<open>n\<close> invocations
  and then fails with the error of the \<open>n\<close>-th attempt (as the \<^verbatim>\<open>Error\<close> object
  that \<^verbatim>\<open>withRetry\<close> keeps in \<^verbatim>\<open>lastError\<close>: the thrown value itself when it is
  an \<^verbatim>\<open>Error\<close>, else an \<^verbatim>\<open>Error\<close> whose message is its string form), not with
  the generic "All retries failed". The operation is a scripted outside call: its
  outcome on the call numbered \<open>calls s + i\<close> is \<open>rs (calls s + i)\<close>, and
  \<open>calls\<close> counts its invocations.
\<close>

theorem withRetry_outcome:
  "(1 \<le> k \<and> k \<le> n \<and> (\<forall>i<k - 1. isl (snd (rs (calls s + i)))) \<and> snd (rs (calls s + (k - 1))) = Inr x
      \<longrightarrow> fst (withRetry (ext a rs) n d s) = Inr x
        \<and> calls (snd (withRetry (ext a rs) n d s)) = calls s + k)
   \<and> (1 \<le> n \<and> (\<forall>i<n. snd (rs (calls s + i)) = Inl (e i))
      \<longrightarrow> fst (withRetry (ext a rs) n d s) = Inl (toError (e (n - 1)))
        \<and> (\<forall>m. e (n - 1) = Error m \<longrightarrow> fst (withRetry (ext a rs) n d s) = Inl (e (n - 1)))
        \<and> calls (snd (withRetry (ext a rs) n d s)) = calls s + n)"
proof (intro conjI impI)
  assume h: "1 \<le> k \<and> k \<le> n \<and> (\<forall>i<k - 1. isl (snd (rs (calls s + i)))) \<and> snd (rs (calls s + (k - 1))) = Inr x"
  then obtain j where k: "k = Suc j" by (cases k) auto
  have a1: "\<forall>i<j. isl (snd (rs (calls s + i)))" using h k by simp
  have a2: "snd (rs (calls s + j)) = Inr x" using h k by simp
  have a3: "Suc j \<le> n" using h k by simp
  show "fst (withRetry (ext a rs) n d s) = Inr x"
    by (rule withRetry_success(1)[OF a1 a2 a3])
  show "calls (snd (withRetry (ext a rs) n d s)) = calls s + k"
    unfolding k by (rule withRetry_success(2)[OF a1 a2 a3])
next
  assume h: "1 \<le> n \<and> (\<forall>i<n. snd (rs (calls s + i)) = Inl (e i))"
  then obtain j where n: "n = Suc j" by (cases n) auto
  have all: "\<forall>i\<le>j. isl (snd (rs (calls s + i)))" using h n by auto
  have last: "snd (rs (calls s + j)) = Inl (e j)" using h n by simp
  show r: "fst (withRetry (ext a rs) n d s) = Inl (toError (e (n - 1)))"
    using withRetry_exhaust(1)[OF all n[symmetric], of a d] last n by simp
  show "calls (snd (withRetry (ext a rs) n d s)) = calls s + n"
    using withRetry_exhaust(2)[OF all n[symmetric], of a d] n by simp
  show "\<forall>m. e (n - 1) = Error m \<longrightarrow> fst (withRetry (ext a rs) n d s) = Inl (e (n - 1))"
    using r by auto
qed

theorem withRetry_outcome_witness:
  "fst (withRetry (ext Invoke flaky) 3 5000 idle) = Inr 7
   \<and> calls (snd (withRetry (ext Invoke flaky) 3 5000 idle)) = 3
   \<and> fst (withRetry (ext Invoke broken) 3 5000 idle) = Inl (Error ''last'')
   \<and> calls (snd (withRetry (ext Invoke broken) 3 5000 idle)) = 3"
proof -
  have c0: "calls idle = 0" by (simp add: idle_def)
  have f1: "\<forall>i<3 - 1. isl (snd (flaky (calls idle + i)))"
    by (simp add: flaky_def c0)
  have f2: "snd (flaky (calls idle + (3 - 1))) = Inr 7"
    by (simp add: flaky_def c0)
  have b1: "\<forall>i<3. snd (broken (calls idle + i))
              = Inl ((\<lambda>i. if i = 2 then NonError ''last'' else Error ''early'') i)"
    by (simp add: broken_def c0)
  note s = withRetry_outcome[where k = 3 and n = 3 and rs = flaky and s = idle and x = 7
      and a = Invoke and d = 5000]
  note x = withRetry_outcome[where n = 3 and rs = broken and s = idle and a = Invoke and d = 5000
      and e = "\<lambda>i. if i = 2 then NonError ''last'' else Error ''early''"]
  from s f1 f2 have "fst (withRetry (ext Invoke flaky) 3 5000 idle) = Inr 7"
    and "calls (snd (withRetry (ext Invoke flaky) 3 5000 idle)) = calls idle + 3"
    by simp_all
  moreover from x b1 have "fst (withRetry (ext Invoke broken) 3 5000 idle) = Inl (Error ''last'')"
    and "calls (snd (withRetry (ext Invoke broken) 3 5000 idle)) = calls idle + 3"
    by simp_all
  ultimately show ?thesis by (simp add: c0)
qed

text \<open>
  Claim C4. For every key \<open>k\<close>, value \<open>x\<close> and TTL \<open>ttl > 0\<close> seconds: a get of
  \<open>k\<close> at a time strictly before \<open>ttl\<close> seconds have elapsed since the set returns
  \<open>x\<close>; a get after \<open>ttl\<close> seconds have elapsed returns absent; a sweep that ran
  in between changes neither answer; and no get ever returns an entry whose expiry time
  has passed.
\<close>

theorem get_after_set:
  assumes "0 < ttl"
  shows "(now' < clock s + ttl * 1000 \<longrightarrow>
            fst (getCached k ((setCached k x ttl s)\<lparr>clock := now'\<rparr>)) = Some x)
       \<and> (clock s + ttl * 1000 < now' \<longrightarrow>
            fst (getCached k ((setCached k x ttl s)\<lparr>clock := now'\<rparr>)) = None)
       \<and> (\<forall>t \<le> now'.
            fst (getCached k ((setCached k x ttl s)\<lparr>clock := now',
                   cache := cache_sweep t (cache (setCached k x ttl s))\<rparr>))
            = fst (getCached k ((setCached k x ttl s)\<lparr>clock := now'\<rparr>)))
       \<and> (\<forall>y. fst (getCached k s) = Some y \<longrightarrow>
            (\<exists>e. entries (cache s) k = Some e \<and> entryValue e = y
               \<and> \<not> (expiresAt e \<noteq> 0 \<and> expiresAt e < clock s)))"
proof (intro conjI impI allI)
  assume "now' < clock s + ttl * 1000"
  then show "fst (getCached k ((setCached k x ttl s)\<lparr>clock := now'\<rparr>)) = Some x"
    using assms by (simp add: getCached_def setCached_def cache_get_def cache_set_def expired_def)
next
  assume "clock s + ttl * 1000 < now'"
  then show "fst (getCached k ((setCached k x ttl s)\<lparr>clock := now'\<rparr>)) = None"
    using assms by (simp add: getCached_def setCached_def cache_get_def cache_set_def expired_def)
next
  fix t assume "t \<le> now'"
  then show "fst (getCached k ((setCached k x ttl s)\<lparr>clock := now',
                   cache := cache_sweep t (cache (setCached k x ttl s))\<rparr>))
            = fst (getCached k ((setCached k x ttl s)\<lparr>clock := now'\<rparr>))"
    using getCached_swept[of t "(setCached k x ttl s)\<lparr>clock := now'\<rparr>" k] by simp
next
  fix y assume "fst (getCached k s) = Some y"
  then show "\<exists>e. entries (cache s) k = Some e \<and> entryValue e = y
               \<and> \<not> (expiresAt e \<noteq> 0 \<and> expiresAt e < clock s)"
    using getCached_Some[of k s y] by (simp add: expired_def)
qed

theorem get_after_set_witness:
  "(0::nat) < 60
   \<and> fst (getCached ''k'' ((setCached ''k'' (7::int) 60 idle)\<lparr>clock := 59999\<rparr>)) = Some 7
   \<and> fst (getCached ''k'' ((setCached ''k'' (7::int) 60 idle)\<lparr>clock := 60001\<rparr>)) = None"
  using get_after_set[of 60 59999 idle "''k''" 7] get_after_set[of 60 60001 idle "''k''" 7]
  by (simp add: idle_def)




text \<open>
  Claim C6. Two getOrCompute calls in immediate succession with the same key and a
  producer that succeeds invoke the producer at most once. If the first call is a
  miss, it runs the producer, stores the result under the key with the given TTL and
  returns it; the second call, whatever producer \<open>g\<close> it is given, returns the stored
  value and leaves the state as it was but for the lookup it recorded and the hit it
  counted: the producer is not run. If the first call is a hit, it does not run the
  producer either.
\<close>

theorem getCachedOrCompute_twice:
  "(getCached key s = (None, s1) \<and> fn s1 = (Inr x, s2) \<longrightarrow>
      getCachedOrCompute key fn ttl s = (Inr x, setCached key x ttl s2)
      \<and> entries (cache (setCached key x ttl s2)) key
          = Some \<lparr>expiresAt = (if ttl = 0 then 0 else clock s2 + ttl * 1000), entryValue = x\<rparr>
      \<and> (\<forall>g. getCachedOrCompute key g ttl (setCached key x ttl s2)
             = (Inr x, (setCached key x ttl s2)\<lparr>trace := trace s2 @ [CacheGet key],
                  cache := (cache (setCached key x ttl s2))\<lparr>hits := hits (cache s2) + 1\<rparr>\<rparr>)))
   \<and> (getCached key s = (Some x, s1) \<longrightarrow> (\<forall>g. getCachedOrCompute key g ttl s = (Inr x, s1)))"
proof (intro conjI impI allI)
  assume h: "getCached key s = (None, s1) \<and> fn s1 = (Inr x, s2)"
  then show "getCachedOrCompute key fn ttl s = (Inr x, setCached key x ttl s2)"
    by (simp add: getCachedOrCompute_def)
  show "entries (cache (setCached key x ttl s2)) key
          = Some \<lparr>expiresAt = (if ttl = 0 then 0 else clock s2 + ttl * 1000), entryValue = x\<rparr>"
    by (simp add: setCached_def cache_set_def)
  fix g :: "('a, 'a, 'b) comp"
  show "getCachedOrCompute key g ttl (setCached key x ttl s2)
             = (Inr x, (setCached key x ttl s2)\<lparr>trace := trace s2 @ [CacheGet key],
                  cache := (cache (setCached key x ttl s2))\<lparr>hits := hits (cache s2) + 1\<rparr>\<rparr>)"
    by (rule getCachedOrCompute_hit) (rule getCached_after_set)
next
  fix g :: "('a, 'a, 'b) comp"
  assume "getCached key s = (Some x, s1)"
  then show "getCachedOrCompute key g ttl s = (Inr x, s1)"
    by (rule getCachedOrCompute_hit)
qed

theorem getCachedOrCompute_twice_witness:
  "fst (getCached ''k'' idle) = None
   \<and> fst (getCachedOrCompute ''k'' producing 60 idle) = Inr 42
   \<and> calls (snd (getCachedOrCompute ''k'' producing 60 idle)) = 1
   \<and> fst (getCachedOrCompute ''k'' producing 60 (snd (getCachedOrCompute ''k'' producing 60 idle))) = Inr 42
   \<and> calls (snd (getCachedOrCompute ''k'' producing 60 (snd (getCachedOrCompute ''k'' producing 60 idle)))) = 1"
proof -
  let ?s1 = "snd (getCached ''k'' idle)"
  let ?s2 = "snd (producing ?s1)"
  have g: "getCached ''k'' idle = (None, ?s1)"
    by (simp add: getCached_def cache_get_def idle_def emptyCache_def)
  have p: "producing ?s1 = (Inr 42, ?s2)"
    by (simp add: producing_def ext_def)
  have c: "calls ?s2 = 1"
    by (simp add: producing_def getCached_def cache_get_def idle_def emptyCache_def)
  note t = getCachedOrCompute_twice[of "''k''" idle ?s1 producing 42 ?s2 60]
  from t g p have first: "getCachedOrCompute ''k'' producing 60 idle = (Inr 42, setCached ''k'' 42 60 ?s2)"
    by blast
  from t g p have second: "getCachedOrCompute ''k'' producing 60 (setCached ''k'' 42 60 ?s2)
      = (Inr 42, (setCached ''k'' 42 60 ?s2)\<lparr>trace := trace ?s2 @ [CacheGet ''k''],
                  cache := (cache (setCached ''k'' 42 60 ?s2))\<lparr>hits := hits (cache ?s2) + 1\<rparr>\<rparr>)"
    by blast
  have g0: "fst (getCached ''k'' idle) = None"
    by (simp add: getCached_def cache_get_def idle_def emptyCache_def)
  show ?thesis
    unfolding first snd_conv fst_conv second using g0 c by (simp add: setCached_def)
qed

text \<open>
  Claim C7, as amended. For every key and every producer that fails: getOrCompute on a
  cache miss propagates the producer's error to the caller and writes nothing to the
  cache: the state it returns is the state the producer left. When the producer itself
  leaves the cache alone, a lookup of that key at any later time still reports absent,
  every other key keeps its entry, and the key set is the one before the call without
  the key itself: an expired entry of the key that was not yet swept is reclaimed by
  the lookup that found the miss.
\<close>

theorem getCachedOrCompute_failure:
  assumes "getCached key s = (None, s1)"
    and "fn s1 = (Inl e, s2)"
  shows "getCachedOrCompute key fn ttl s = (Inl e, s2)
       \<and> (cache s2 = cache s1 \<longrightarrow>
            entries (cache s2) = (entries (cache s))(key := None)
            \<and> entries (cache s2) key = None
            \<and> (\<forall>k. k \<noteq> key \<longrightarrow> entries (cache s2) k = entries (cache s) k)
            \<and> dom (entries (cache s2)) = dom (entries (cache s)) - {key}
            \<and> (\<forall>now. fst (cache_get now key (cache s2)) = None))"
  using assms getCached_None_entries[OF assms(1)]
  by (auto simp: getCachedOrCompute_def cache_get_def)

theorem getCachedOrCompute_failure_witness:
  "getCached ''k'' stale = (None, snd (getCached ''k'' stale))
   \<and> getCachedOrCompute ''k'' failing 60 stale
       = (Inl (Error ''unavailable''), snd (failing (snd (getCached ''k'' stale))))
   \<and> entries (cache (snd (getCachedOrCompute ''k'' failing 60 stale))) ''k'' = None"
proof -
  let ?s1 = "snd (getCached ''k'' stale)"
  let ?s2 = "snd (failing ?s1)"
  have g: "getCached ''k'' stale = (None, ?s1)"
    by (simp add: getCached_def cache_get_def cache_set_def expired_def stale_def emptyCache_def)
  have p: "failing ?s1 = (Inl (Error ''unavailable''), ?s2)"
    by (simp add: failing_def ext_def)
  have c: "cache ?s2 = cache ?s1"
    by (simp add: failing_def ext_def)
  note t = getCachedOrCompute_failure[of "''k''" stale ?s1 failing "Error ''unavailable''" ?s2 60]
  from t g p c
  have r: "getCachedOrCompute ''k'' failing 60 stale = (Inl (Error ''unavailable''), ?s2)"
    and e: "entries (cache ?s2) ''k'' = None"
    by blast+
  show ?thesis
    unfolding r snd_conv using g e by blast
qed

text \<open>
  The claim as stated (the key set is unchanged) fails where the miss is an expired,
  unswept entry: the failing call removes the key.
\<close>

theorem getCachedOrCompute_failure_counterexample:
  "fst (getCached ''k'' stale) = None
   \<and> fst (getCachedOrCompute ''k'' failing 60 stale) = Inl (Error ''unavailable'')
   \<and> dom (entries (cache stale)) = {''k''}
   \<and> dom (entries (cache (snd (getCachedOrCompute ''k'' failing 60 stale)))) = {}"
  by (simp add: getCachedOrCompute_def getCached_def cache_get_def cache_set_def expired_def
      stale_def emptyCache_def failing_def ext_def)

text \<open>
  Claim C8. Attempt 1 runs with no preceding wait, and after attempt \<open>k\<close> fails with
  \<open>k < maxAttempts\<close> the wait before attempt \<open>k + 1\<close> is exactly
  \<open>baseDelay * 2 ^ (k - 1)\<close>, with no ceiling. When the first \<open>j\<close> attempts fail
  and attempt \<open>j + 1\<close> is the one that ends the loop (a success, or the last allowed
  attempt), the actions of withRetry are: the call of attempt 1, then for each
  \<open>k = 1, ..., j\<close> the wait \<open>d * 2 ^ (k - 1)\<close> followed by the call of attempt
  \<open>k + 1\<close>, and nothing else.
\<close>

theorem withRetry_backoff:
  assumes "\<forall>i<j. isl (snd (rs (calls s + i)))"
    and "j < n"
    and "Suc j < n \<longrightarrow> \<not> isl (snd (rs (calls s + j)))"
  shows "trace (snd (withRetry (ext a rs) n d s))
         = trace s @ concat (map (\<lambda>k. [a, Wait (d * 2 ^ (k - 1))]) [1..<Suc j]) @ [a]"
proof (cases "isl (snd (rs (calls s + j)))")
  case True
  with assms(3) have eq: "Suc j = n" using assms(2) by auto
  have all: "\<forall>i\<le>j. isl (snd (rs (calls s + i)))"
    using assms(1) True by (auto simp: le_less)
  show ?thesis
    unfolding withRetry_exhaust(3)[OF all eq] retry_waits_1 ..
next
  case False
  then obtain x where x: "snd (rs (calls s + j)) = Inr x"
    by (cases "snd (rs (calls s + j))") auto
  have le: "Suc j \<le> n" using assms(2) by simp
  show ?thesis
    unfolding withRetry_success(3)[OF assms(1) x le] retry_waits_1 ..
qed

theorem withRetry_backoff_witness:
  "trace (snd (withRetry (ext Invoke flaky) 3 5000 idle))
     = [Invoke, Wait 5000, Invoke, Wait 10000, Invoke]
   \<and> trace (snd (withRetry (ext Invoke broken) 3 5000 idle))
     = [Invoke, Wait 5000, Invoke, Wait 10000, Invoke]"
proof -
  have c0: "calls idle = 0" and t0: "trace idle = []" by (simp_all add: idle_def)
  have f1: "\<forall>i<2. isl (snd (flaky (calls idle + i)))"
    by (simp add: flaky_def c0)
  have f2: "Suc 2 < 3 \<longrightarrow> \<not> isl (snd (flaky (calls idle + 2)))" by simp
  have b1: "\<forall>i<2. isl (snd (broken (calls idle + i)))"
    by (simp add: broken_def c0)
  have b2: "Suc 2 < 3 \<longrightarrow> \<not> isl (snd (broken (calls idle + 2)))" by simp
  have u: "[Suc 0..<3] = [Suc 0, 2]" by code_simp
  have "trace (snd (withRetry (ext Invoke flaky) 3 5000 idle))
     = [Invoke, Wait 5000, Invoke, Wait 10000, Invoke]"
    using withRetry_backoff[where j = 2 and rs = flaky and s = idle and n = 3 and a = Invoke
        and d = 5000] f1 f2 by (simp add: t0 u)
  moreover have "trace (snd (withRetry (ext Invoke broken) 3 5000 idle))
     = [Invoke, Wait 5000, Invoke, Wait 10000, Invoke]"
    using withRetry_backoff[where j = 2 and rs = broken and s = idle and n = 3 and a = Invoke
        and d = 5000] b1 b2 by (simp add: t0 u)
  ultimately show ?thesis by simp
qed

text \<open>
  Claim C9. When the classification request fails on every retry attempt, or a response
  arrives that has no choices or holds no parsable JSON object, analyzePostWithOpenAI
  returns the fallback verdict and stores it under \<open>post_analysis:\<close> followed by the
  post id for seven days, so that the item is not classified again until the entry
  expires. The code does not keep the entry that long: the cache lives in the process,
  and the scheduler starts a new process for every run. During an outage of the
  service the first scheduled run sends \<open>p1\<close> three times and stores the fallback,
  to expire at 604833530; the run the scheduler starts two hours later, at 7234030,
  sends \<open>p1\<close> three more times. Had the run been made in the process that holds
  the entry, no further call would have been made.
\<close>

theorem fallback_lost_between_runs:
  "classified ''p1'' afterOutage = 3
   \<and> entries (cache afterOutage) ''post_analysis:p1''
       = Some \<lparr>expiresAt = 604833530, entryValue = fallback\<rparr>
   \<and> clock twoHoursOn = 7234030
   \<and> classified ''p1'' (snd (executeScript outage [''acct''] twoHoursOn)) = 6
   \<and> classified ''p1'' (snd (scrapeAndDetectEvents outage [''acct''] 5 twoHoursOn)) = 3"
proof -
  have a: "classified ''p1'' afterOutage = 3"
    by (simp add: afterOutage_eq classified_def)
  have b: "entries (cache afterOutage) ''post_analysis:p1''
       = Some \<lparr>expiresAt = 604833530, entryValue = fallback\<rparr>"
    by (simp add: afterOutage_eq)
  have c: "clock twoHoursOn = 7234030"
    by (simp add: twoHoursOn_def afterOutage_eq)
  have d: "classified ''p1'' (snd (executeScript outage [''acct''] twoHoursOn)) = 6"
    by (simp add: twoHoursOn_def afterOutage_eq executeScript_def newProcess_def classified_def
        detector_defs withRetry_from_now withRetry_from_again withRetry_from_stop
        outage_def world_def p1_def)
  have e: "classified ''p1'' (snd (scrapeAndDetectEvents outage [''acct''] 5 twoHoursOn)) = 3"
    by (simp add: twoHoursOn_def afterOutage_eq classified_def detector_defs withRetry_from_now
        outage_def world_def p1_def)
  show ?thesis using a b c d e by simp
qed

text \<open>
  Claim C10, as amended. In the followings statistics a historical count of 0 is treated
  like a missing sample, each change being \<open>currentCount - (historicalResult || currentCount)\<close>.
  On a computation that finds none of its three windows (they lie on three different
  days, so their cache keys differ) in the history cache, whenever
  the nearest sample at or before a window boundary has a count of 0, or there is no
  such sample, the change reported for that window is 0: an account that grew from 0 to
  N followings reports 0, not +N.
\<close>

theorem zero_sample_counts_as_missing:
  assumes "fst (computeFollowingsStats env cal a s) = Inr st"
    and "distinct (windowKeys env cal a s)"
    and "\<forall>k \<in> set (windowKeys env cal a s). entries (cache s) k = None"
  shows "(nearestCount a (dayBoundary env cal a s) (db s) \<in> {None, Some 0} \<longrightarrow> dailyChange st = 0)
       \<and> (nearestCount a (weekBoundary env cal a s) (db s) \<in> {None, Some 0} \<longrightarrow> weeklyChange st = 0)
       \<and> (nearestCount a (monthBoundary env cal a s) (db s) \<in> {None, Some 0} \<longrightarrow> monthlyChange st = 0)"
proof -
  let ?s0 = "snd (currentFollowings env a s)"
  let ?bd = "oneDayAgo cal (clock ?s0)"
  let ?bw = "oneWeekAgo cal (clock ?s0)"
  let ?bm = "oneMonthAgo cal (clock ?s0)"
  let ?kd = "historyKey cal a ?bd"
  let ?kw = "historyKey cal a ?bw"
  let ?km = "historyKey cal a ?bm"
  have keys: "?kd \<noteq> ?kw" "?kd \<noteq> ?km" "?kw \<noteq> ?km"
    using assms(2) by (auto simp: windowKeys_def dayBoundary_def weekBoundary_def monthBoundary_def)
  have none: "entries (cache s) ?kd = None" "entries (cache s) ?kw = None" "entries (cache s) ?km = None"
    using assms(3) by (auto simp: windowKeys_def dayBoundary_def weekBoundary_def monthBoundary_def)
  obtain c where cur: "currentFollowings env a s = (Inr c, ?s0)"
    using assms(1) by (cases "fst (currentFollowings env a s)")
      (auto simp: computeFollowingsStats_def prod_eq_iff split: prod.splits sum.splits)
  let ?d = "getDifferenceFromDate env cal a ?bd ?s0"
  let ?s1 = "snd ?d"
  let ?w = "getDifferenceFromDate env cal a ?bw ?s1"
  let ?s2 = "snd ?w"
  let ?m = "getDifferenceFromDate env cal a ?bm ?s2"
  have n0: "entries (cache ?s0) ?kd = None" "entries (cache ?s0) ?kw = None" "entries (cache ?s0) ?km = None"
    using none by (simp_all add: currentFollowings_frame)
  note d = getDifferenceFromDate_absent[where env = env, OF n0(1)]
  have n1: "entries (cache ?s1) ?kw = None" "entries (cache ?s1) ?km = None"
    using d(4)[where k = ?kw] d(4)[where k = ?km] keys n0 by simp_all
  note w = getDifferenceFromDate_absent[where env = env, OF n1(1)]
  have n2: "entries (cache ?s2) ?km = None"
    using w(4)[where k = ?km] keys n1 by simp
  note m = getDifferenceFromDate_absent[where env = env, OF n2]
  define rd where "rd = (if snd (supabase_up env (calls ?s0)) then nearestCount a ?bd (db s) else None)"
  define rw where "rw = (if snd (supabase_up env (calls ?s1)) then nearestCount a ?bw (db s) else None)"
  define rm where "rm = (if snd (supabase_up env (calls ?s2)) then nearestCount a ?bm (db s) else None)"
  have fd: "?d = (Inr rd, ?s1)"
    using d(1) by (simp add: prod_eq_iff rd_def currentFollowings_frame)
  have fw: "?w = (Inr rw, ?s2)"
    using w(1) d(2) by (simp add: prod_eq_iff rw_def currentFollowings_frame)
  have fm: "?m = (Inr rm, snd ?m)"
    using m(1) w(2) d(2) by (simp add: prod_eq_iff rm_def currentFollowings_frame)
  have hr: "historicalResults env cal a ?s0 = (Inr (rd, rw, rm), snd ?m)"
    unfolding historicalResults_def by (subst fd, simp, subst fw, simp, subst fm, simp)
  have st: "st = \<lparr>totalFollowings = c, dailyChange = c - orCurrent rd c,
                   weeklyChange = c - orCurrent rw c, monthlyChange = c - orCurrent rm c\<rparr>"
    using assms(1) unfolding computeFollowingsStats_def by (subst (asm) cur, simp add: hr)
  show ?thesis
    unfolding st dayBoundary_def weekBoundary_def monthBoundary_def rd_def rw_def rm_def
    by (auto simp: orCurrent_def)
qed

theorem zero_sample_counts_as_missing_witness:
  "distinct (windowKeys world november ''alice'' freshAtNoon)
   \<and> nearestCount ''alice'' (dayBoundary world november ''alice'' freshAtNoon) (db freshAtNoon) = Some 0
   \<and> totalFollowings (projr (fst (computeFollowingsStats world november ''alice'' freshAtNoon))) = 7
   \<and> dailyChange (projr (fst (computeFollowingsStats world november ''alice'' freshAtNoon))) = 0"
proof -
  have r: "fst (computeFollowingsStats world november ''alice'' freshAtNoon)
      = Inr \<lparr>totalFollowings = 7, dailyChange = 0, weeklyChange = 0, monthlyChange = 0\<rparr>"
    by (simp add: stats_defs freshAtNoon_def atTen_def november_def aliceDb_def world_def)
  then have r': "fst (computeFollowingsStats world november ''alice'' freshAtNoon)
      = Inr (projr (fst (computeFollowingsStats world november ''alice'' freshAtNoon)))"
    by simp
  have k: "distinct (windowKeys world november ''alice'' freshAtNoon)"
    by (simp add: stats_defs freshAtNoon_def atTen_def november_def world_def)
  have e: "\<forall>k \<in> set (windowKeys world november ''alice'' freshAtNoon). entries (cache freshAtNoon) k = None"
    by (simp add: freshAtNoon_def atTen_def emptyCache_def)
  have n: "nearestCount ''alice'' (dayBoundary world november ''alice'' freshAtNoon) (db freshAtNoon) = Some 0"
    by (simp add: stats_defs freshAtNoon_def atTen_def november_def aliceDb_def world_def)
  from zero_sample_counts_as_missing[OF r' k e] n
  have "dailyChange (projr (fst (computeFollowingsStats world november ''alice'' freshAtNoon))) = 0"
    by simp
  then show ?thesis using k n r by simp
qed

text \<open>
  The claim as stated fails where a window is still in the history cache: at noon the
  nearest sample at or before the day boundary has a count of 0, but the lookup returns
  the 5 that the computation at ten cached under the same day, and the daily change
  reported is 7 - 5.
\<close>

theorem stale_history_counterexample:
  "nearestCount ''alice'' (dayBoundary world november ''alice'' atNoon) (db atNoon) = Some 0
   \<and> fst (computeFollowingsStats world november ''alice'' atNoon)
       = Inr \<lparr>totalFollowings = 7, dailyChange = 2, weeklyChange = 0, monthlyChange = 0\<rparr>"
  by (simp add: stats_defs atNoon_def atTen_def november_def aliceDb_def world_def)

end
